theory Spec2Isabelle
  imports Complex_Main "HOL-Library.Word" "HOL-Library.AList"
begin

section \<open>Values, heap objects and the VM state (vm.h, vm.c)\<close>

text \<open>
  An object pointer is an index into the heap; \<open>0\<close> is the C \<open>NULL\<close> pointer and
  is never allocated.
\<close>

type_synonym ref = nat

text \<open>
  \<open>Value\<close> is the tagged cell of the VM: null, boolean, number (an IEEE double in C,
  embedded in the reals: the operations modelled here only store, compare and truncate
  small integral numbers), host handle, or object pointer.
\<close>

datatype Value = NULL_VAL | BOOL_VAL bool | NUM_VAL real | HANDLE_VAL nat | OBJ_VAL ref

definition IS_NULL :: "Value \<Rightarrow> bool" where
  "IS_NULL v = (v = NULL_VAL)"



fun IS_OBJ :: "Value \<Rightarrow> bool" where
  "IS_OBJ (OBJ_VAL _) = True"
| "IS_OBJ _ = False"

text \<open>
  Modelled from the spec: the hash table (hashtable.c is not under src/) is a map from
  interned-string keys to values. Interned strings are equal as pointers exactly when
  their contents are equal, so a key is its content. \<open>hashTableGet\<close> looks a key up;
  \<open>hashTablePut\<close> binds the key to the value, inserting the key when it is absent, and
  returns whether the key was new: \<open>OP_DEFINE_GLOBAL\<close> uses it to create a binding
  and \<open>OP_SET_GLOBAL\<close> reports "not defined" exactly when it returns true.
\<close>

type_synonym HashTable = "(string \<times> Value) list"

definition hashTableGet :: "HashTable \<Rightarrow> string \<Rightarrow> Value option" where
  "hashTableGet t key = map_of t key"

definition hashTablePut :: "HashTable \<Rightarrow> string \<Rightarrow> Value \<Rightarrow> bool \<times> HashTable" where
  "hashTablePut t key val = (map_of t key = None, AList.update key val t)"

text \<open>\<open>FnCommon\<close>: the part shared by script functions and natives.\<close>

record FnCommon =
  vararg :: bool
  argsCount :: "8 word"
  defaultc :: "8 word"
  defaults :: "Value list"
  c_module :: ref
  c_name :: string

text \<open>
  Where an open upvalue points: a slot of the VM stack, or (once closed) its own
  \<open>closed\<close> cell.
\<close>

datatype UpAddr = StackSlot nat | OwnCell

text \<open>
  The heap objects, one constructor per \<open>ObjType\<close>. A class keeps its name, its
  superclass pointer and its method table; an instance its field table; a module its
  name and its globals; a function its \<open>FnCommon\<close> and its constant pool; a closure
  its function and its upvalue pointers.
\<close>

datatype ObjBody =
    OBJ_STRING string
  | OBJ_LIST "Value list"
  | OBJ_TUPLE "Value list"
  | OBJ_FUNCTION FnCommon "Value list"
  | OBJ_NATIVE FnCommon
  | OBJ_CLOSURE ref "ref list"
  | OBJ_BOUND_METHOD Value ref
  | OBJ_CLASS string ref HashTable
  | OBJ_INST HashTable
  | OBJ_MODULE string HashTable
  | OBJ_UPVALUE UpAddr Value
  | OBJ_STACK_TRACE
  | OBJ_TABLE
  | OBJ_USERDATA

datatype Obj = Obj (obj_cls: ref) (obj_body: ObjBody)

type_synonym Heap = "Obj list"

definition deref :: "Heap \<Rightarrow> ref \<Rightarrow> Obj option" where
  "deref h r = (if 0 < r \<and> r \<le> length h then Some (h ! (r - 1)) else None)"

definition heap_store :: "Heap \<Rightarrow> ref \<Rightarrow> Obj \<Rightarrow> Heap" where
  "heap_store h r ob = h[r - 1 := ob]"

definition allocate :: "Heap \<Rightarrow> Obj \<Rightarrow> ref \<times> Heap" where
  "allocate h ob = (Suc (length h), h @ [ob])"

datatype HandlerType = HANDLER_ENSURE | HANDLER_EXCEPT

record Handler =
  h_type :: HandlerType
  address :: nat
  savesp :: nat

text \<open>
  A frame: instruction pointer (an offset into the bytecode), base of its stack window,
  its closure or native, and its installed handlers. \<open>handlers\<close> lists
  \<open>handlers[handlerc - 1], ..., handlers[0]\<close>, so \<open>handlerc\<close> is its length.
\<close>

record Frame =
  ip :: nat
  frameStack :: nat
  fn :: ref
  handlers :: "Handler list"

text \<open>
  The VM. \<open>stack\<close> is the stack array (\<open>stackSz\<close> is its length) and \<open>sp\<close> the index
  of the first free slot; slots at and above \<open>sp\<close> keep their old contents. \<open>frames\<close>
  lists \<open>frames[frameCount - 1], ..., frames[0]\<close>. \<open>upvalues\<close> is the linked list of
  open upvalues, head first, threaded through \<open>ObjUpvalue.next\<close> in C. The fields
  are among those that vm.c names.
\<close>

record JStarVM =
  stack :: "Value list"
  sp :: nat
  frames :: "Frame list"
  module :: ref
  heap :: Heap
  upvalues :: "ref list"
  numClass :: ref
  boolClass :: ref
  nullClass :: ref
  modClass :: ref
  tupClass :: ref
  funClass :: ref

text \<open>
  The inline stack primitives of vm.h. A write at or above \<open>stackSz\<close> and a read
  below the array are undefined in C (\<open>jsrEnsureStack\<close> reserves the room before a
  call); the theorems assume the room they need.
\<close>

definition push :: "JStarVM \<Rightarrow> Value \<Rightarrow> JStarVM" where
  "push vm v = vm\<lparr>stack := (stack vm)[sp vm := v], sp := sp vm + 1\<rparr>"

definition pop :: "JStarVM \<Rightarrow> Value \<times> JStarVM" where
  "pop vm = (stack vm ! (sp vm - 1), vm\<lparr>sp := sp vm - 1\<rparr>)"

definition peek :: "JStarVM \<Rightarrow> Value" where
  "peek vm = stack vm ! (sp vm - 1)"

definition peek2 :: "JStarVM \<Rightarrow> Value" where
  "peek2 vm = stack vm ! (sp vm - 2)"

definition peekn :: "JStarVM \<Rightarrow> nat \<Rightarrow> Value" where
  "peekn vm n = stack vm ! (sp vm - (n + 1))"

text \<open>\<open>getClass\<close>: the built-in class of a scalar, the header's class of an object.\<close>

fun getClass :: "JStarVM \<Rightarrow> Value \<Rightarrow> ref option" where
  "getClass vm (NUM_VAL _) = Some (numClass vm)"
| "getClass vm (BOOL_VAL _) = Some (boolClass vm)"
| "getClass vm (OBJ_VAL r) = map_option obj_cls (deref (heap vm) r)"
| "getClass vm (HANDLE_VAL _) = Some (nullClass vm)"
| "getClass vm NULL_VAL = Some (nullClass vm)"

text \<open>The name and the method table of the class a pointer refers to.\<close>

definition cls_name :: "JStarVM \<Rightarrow> ref \<Rightarrow> string option" where
  "cls_name vm c = (case deref (heap vm) c of
       Some (Obj _ (OBJ_CLASS nm _ _)) \<Rightarrow> Some nm
     | _ \<Rightarrow> None)"

definition cls_methods :: "JStarVM \<Rightarrow> ref \<Rightarrow> HashTable option" where
  "cls_methods vm c = (case deref (heap vm) c of
       Some (Obj _ (OBJ_CLASS _ _ ms)) \<Rightarrow> Some ms
     | _ \<Rightarrow> None)"

text \<open>
  Modelled from the spec: \<open>jsrRaise(vm, cls, fmt, ...)\<close> (jstar.c is not under src/)
  raises an exception by class name and format string. The model records the class
  name, the format string and the arguments to be formatted.
\<close>

datatype fmt_arg = S string | D int

datatype JsrRaise = JsrRaise string string "fmt_arg list"

text \<open>
  What a \<open>bool\<close>-returning operation of vm.c does: \<open>Done vm\<close> returns true in state
  \<open>vm\<close>; \<open>Raised e vm\<close> calls \<open>jsrRaise\<close> in state \<open>vm\<close> and returns false;
  \<open>Call vm callee argc\<close> ends with \<open>return callValue(vm, callee, argc)\<close>;
  \<open>Undefined\<close> is undefined behaviour of the C code (a wild pointer, a failed
  \<open>UNREACHABLE\<close>).
\<close>

datatype Outcome =
    Undefined
  | Raised JsrRaise JStarVM
  | Call JStarVM Value "8 word"
  | Done JStarVM

section \<open>Argument adjustment (argumentError, packVarargs, adjustArguments)\<close>

text \<open>\<open>c->module->name->data\<close>: the name of the module a pointer refers to.\<close>

definition mod_name :: "JStarVM \<Rightarrow> ref \<Rightarrow> string option" where
  "mod_name vm m = (case deref (heap vm) m of
       Some (Obj _ (OBJ_MODULE nm _)) \<Rightarrow> Some nm
     | _ \<Rightarrow> None)"

text \<open>
  \<open>argumentError\<close> raises the TypeException of a wrong argument count; \<open>quantity\<close>
  is "exactly", "at most" or "at least".
\<close>

definition argumentError :: "JStarVM \<Rightarrow> FnCommon \<Rightarrow> int \<Rightarrow> int \<Rightarrow> string \<Rightarrow> Outcome" where
  "argumentError vm c expected supplied quantity =
     (case mod_name vm (c_module c) of
        Some mn \<Rightarrow>
          Raised (JsrRaise ''TypeException''
                    ''Function `%s.%s` takes %s %d arguments, %d supplied.''
                    [S mn, S (c_name c), S quantity, D expected, D supplied]) vm
      | None \<Rightarrow> Undefined)"

text \<open>
  Modelled from the spec: \<open>newTuple(vm, size)\<close> (object.c is not under src/) allocates
  a fresh Tuple of \<open>size\<close> slots, of the built-in class Tuple.
\<close>

definition newTuple :: "JStarVM \<Rightarrow> nat \<Rightarrow> ref \<times> JStarVM" where
  "newTuple vm sz =
     (case allocate (heap vm) (Obj (tupClass vm) (OBJ_TUPLE (replicate sz NULL_VAL))) of
        (t, h) \<Rightarrow> (t, vm\<lparr>heap := h\<rparr>))"

text \<open>\<open>args->arr[i] = v\<close> on the tuple \<open>args\<close>.\<close>

definition tuple_set :: "JStarVM \<Rightarrow> ref \<Rightarrow> nat \<Rightarrow> Value \<Rightarrow> JStarVM" where
  "tuple_set vm t i v =
     (case deref (heap vm) t of
        Some (Obj c (OBJ_TUPLE arr)) \<Rightarrow>
          vm\<lparr>heap := heap_store (heap vm) t (Obj c (OBJ_TUPLE (arr[i := v])))\<rparr>
      | _ \<Rightarrow> vm)"

text \<open>
  \<open>packVarargs\<close>: the loop \<open>for(int i = count - 1; i >= 0; i--) args->arr[i] = pop(vm)\<close>
  (\<open>packLoop vm args (i + 1)\<close> is the loop at index \<open>i\<close>), then the tuple is pushed.
\<close>

fun packLoop :: "JStarVM \<Rightarrow> ref \<Rightarrow> nat \<Rightarrow> JStarVM" where
  "packLoop vm args 0 = vm"
| "packLoop vm args (Suc i) =
     (case pop vm of (v, vm') \<Rightarrow> packLoop (tuple_set vm' args i v) args i)"

definition packVarargs :: "JStarVM \<Rightarrow> 8 word \<Rightarrow> JStarVM" where
  "packVarargs vm count =
     (case newTuple vm (unat count) of
        (args, vm') \<Rightarrow> push (packLoop vm' args (unat count)) (OBJ_VAL args))"

text \<open>
  The loop \<open>for(uint8_t i = argc - least; i < c->defaultc; i++) push(vm, c->defaults[i])\<close>
  of \<open>adjustArguments\<close>, from index \<open>i\<close> on. The counter is a byte; it stays below
  \<open>defaultc\<close>, so it never wraps.
\<close>

function pushDefaults :: "JStarVM \<Rightarrow> FnCommon \<Rightarrow> 8 word \<Rightarrow> JStarVM" where
  "pushDefaults vm c i =
     (if i < defaultc c then pushDefaults (push vm (defaults c ! unat i)) c (i + 1) else vm)"
  by pat_completeness auto
termination
proof (relation "measure (\<lambda>(vm, c, i). unat (defaultc c) - unat i)")
  show "wf (measure (\<lambda>(vm, c, i). unat (defaultc c) - unat i))" by simp
next
  fix vm :: JStarVM and c :: FnCommon and i :: "8 word"
  assume lt: "i < defaultc c"
  then have a: "unat i < unat (defaultc c)" by (simp add: word_less_nat_alt)
  have "unat (defaultc c) < 256" using unsigned_less [of "defaultc c", where ?'a = nat] by simp
  with a have "unat (i + 1) = Suc (unat i)" by (simp add: unat_word_ariths)
  with a show "((push vm (defaults c ! unat i), c, i + 1), (vm, c, i))
        \<in> measure (\<lambda>(vm, c, i). unat (defaultc c) - unat i)" by simp
qed

declare pushDefaults.simps [simp del]

text \<open>
  \<open>adjustArguments\<close>: \<open>most\<close>, \<open>least\<close> and \<open>argc\<close> are bytes, and \<open>least\<close> is the
  byte difference \<open>most - defaultc\<close>.
\<close>

definition adjustArguments :: "JStarVM \<Rightarrow> FnCommon \<Rightarrow> 8 word \<Rightarrow> Outcome" where
  "adjustArguments vm c argc =
     (let most = argsCount c; least = most - defaultc c in
      if \<not> vararg c \<and> most = least \<and> argc \<noteq> argsCount c
      then argumentError vm c (uint (argsCount c)) (uint argc) ''exactly''
      else if \<not> vararg c \<and> argc > most
      then argumentError vm c (uint most) (uint argc) ''at most''
      else if argc < least
      then argumentError vm c (uint least) (uint argc) ''at least''
      else let vm' = pushDefaults vm c (argc - least) in
           if vararg c
           then Done (packVarargs vm' (if argc > most then argc - most else 0))
           else Done vm')"

text \<open>
  A call site with the callee and three arguments 10, 20, 30 on the stack, and three
  functions of module \<open>__main__\<close>: \<open>f(a, b)\<close>, \<open>g(a, b, c = 7, d = 8)\<close> and
  \<open>h(a, ...)\<close>.
\<close>

definition vm_call :: JStarVM where
  "vm_call = \<lparr>stack = [OBJ_VAL 9, NUM_VAL 10, NUM_VAL 20, NUM_VAL 30,
                         NULL_VAL, NULL_VAL, NULL_VAL, NULL_VAL],
     sp = 4, frames = [], module = 2,
     heap = [Obj 0 (OBJ_CLASS ''Tuple'' 0 []), Obj 0 (OBJ_MODULE ''__main__'' [])],
     upvalues = [],
     numClass = 0, boolClass = 0, nullClass = 0, modClass = 0, tupClass = 1, funClass = 0\<rparr>"

definition fn_exact :: FnCommon where
  "fn_exact = \<lparr>vararg = False, argsCount = 2, defaultc = 0, defaults = [],
                 c_module = 2, c_name = ''f''\<rparr>"

definition fn_defaults :: FnCommon where
  "fn_defaults = \<lparr>vararg = False, argsCount = 4, defaultc = 2,
                    defaults = [NUM_VAL 7, NUM_VAL 8], c_module = 2, c_name = ''g''\<rparr>"

definition fn_varargs :: FnCommon where
  "fn_varargs = \<lparr>vararg = True, argsCount = 1, defaultc = 0, defaults = [],
                   c_module = 2, c_name = ''h''\<rparr>"

section \<open>Invocation by name (invokeMethod, invokeValue)\<close>

text \<open>
  \<open>invokeMethod\<close> looks the name up in the method table of the class and calls what it
  finds.
\<close>

definition invokeMethod :: "JStarVM \<Rightarrow> ref \<Rightarrow> string \<Rightarrow> 8 word \<Rightarrow> Outcome" where
  "invokeMethod vm cls name argc =
     (case deref (heap vm) cls of
        Some (Obj _ (OBJ_CLASS cname _ methods)) \<Rightarrow>
          (case hashTableGet methods name of
             None \<Rightarrow> Raised (JsrRaise ''MethodException'' ''Method %s.%s() doesn't exists''
                               [S cname, S name]) vm
           | Some method \<Rightarrow> Call vm method argc)
      | _ \<Rightarrow> Undefined)"

text \<open>
  \<open>invokeValue\<close>: the receiver is \<open>peekn(vm, argc)\<close>. An instance is asked for a field
  first. For a module the method table of \<open>vm->modClass\<close> is asked first ("check if
  method shadows a function in the module"), then the module's globals.
\<close>

definition invokeValue :: "JStarVM \<Rightarrow> string \<Rightarrow> 8 word \<Rightarrow> Outcome" where
  "invokeValue vm name argc =
     (let val = peekn vm (unat argc) in
      case val of
        OBJ_VAL r \<Rightarrow>
          (case deref (heap vm) r of
             None \<Rightarrow> Undefined
           | Some (Obj cls (OBJ_INST flds)) \<Rightarrow>
               (case hashTableGet flds name of
                  Some f \<Rightarrow> Call vm f argc
                | None \<Rightarrow> invokeMethod vm cls name argc)
           | Some (Obj cls (OBJ_MODULE mname globals)) \<Rightarrow>
               (case cls_methods vm (modClass vm) of
                  None \<Rightarrow> Undefined
                | Some methods \<Rightarrow>
                    (case hashTableGet methods name of
                       Some func \<Rightarrow> Call vm func argc
                     | None \<Rightarrow>
                         (case hashTableGet globals name of
                            None \<Rightarrow> Raised (JsrRaise ''NameException''
                                              ''Name `%s` is not defined in module %s.''
                                              [S name, S mname]) vm
                          | Some func \<Rightarrow> Call vm func argc)))
           | Some (Obj cls _) \<Rightarrow> invokeMethod vm cls name argc)
      | _ \<Rightarrow> (case getClass vm val of
                 Some cls \<Rightarrow> invokeMethod vm cls name argc
               | None \<Rightarrow> Undefined))"

text \<open>
  A module \<open>m\<close> (object 3) with globals \<open>f\<close> and \<open>g\<close>, while the class Module
  (object 2) has a method \<open>f\<close>; and an instance (object 8) of a class \<open>A\<close> with a method
  \<open>run\<close>, whose field \<open>run\<close> holds another callable.
\<close>

definition native_obj :: "string \<Rightarrow> Obj" where
  "native_obj nm = Obj 0 (OBJ_NATIVE \<lparr>vararg = False, argsCount = 0, defaultc = 0,
                                       defaults = [], c_module = 3, c_name = nm\<rparr>)"

definition vm_module :: JStarVM where
  "vm_module = \<lparr>stack = [OBJ_VAL 3, OBJ_VAL 8, NULL_VAL, NULL_VAL], sp = 1, frames = [],
     module = 3,
     heap = [Obj 0 (OBJ_CLASS ''Class'' 0 []),
             Obj 1 (OBJ_CLASS ''Module'' 0 [(''f'', OBJ_VAL 4)]),
             Obj 2 (OBJ_MODULE ''m'' [(''f'', OBJ_VAL 5), (''g'', OBJ_VAL 6)]),
             native_obj ''Module.f'', native_obj ''f'', native_obj ''g'',
             Obj 1 (OBJ_CLASS ''A'' 0 [(''run'', OBJ_VAL 4)]),
             Obj 7 (OBJ_INST [(''run'', OBJ_VAL 5)])],
     upvalues = [],
     numClass = 0, boolClass = 0, nullClass = 0, modClass = 2, tupClass = 0, funClass = 0\<rparr>"

section \<open>Binary operator overloads (callBinaryOverload, BINARY, BINARY_OVERLOAD)\<close>



text \<open>"swap callee and arg": \<open>tmp = peek(vm); sp[-1] = sp[-2]; sp[-2] = tmp\<close>.\<close>

definition swap_callee_arg :: "JStarVM \<Rightarrow> JStarVM" where
  "swap_callee_arg vm =
     vm\<lparr>stack := (stack vm)[sp vm - 1 := stack vm ! (sp vm - 2), sp vm - 2 := peek vm]\<rparr>"











section \<open>Unpacking (unpackObject, OP_UNPACK)\<close>

fun pushAll :: "JStarVM \<Rightarrow> Value list \<Rightarrow> JStarVM" where
  "pushAll vm [] = vm"
| "pushAll vm (v # vs) = pushAll (push vm v) vs"

text \<open>
  \<open>unpackObject\<close>: \<open>arr\<close> and \<open>size\<close> are read from the tuple or the list; the loop
  pushes \<open>arr[0]\<close>, ..., \<open>arr[n - 1]\<close>.
\<close>

definition unpackObject :: "JStarVM \<Rightarrow> ref \<Rightarrow> 8 word \<Rightarrow> Outcome" where
  "unpackObject vm ob n =
     (case map_option obj_body (deref (heap vm) ob) of
        Some (OBJ_TUPLE arr) \<Rightarrow>
          if unat n > length arr
          then Raised (JsrRaise ''TypeException'' ''Too little values to unpack.'' []) vm
          else Done (pushAll vm (take (unat n) arr))
      | Some (OBJ_LIST arr) \<Rightarrow>
          if unat n > length arr
          then Raised (JsrRaise ''TypeException'' ''Too little values to unpack.'' []) vm
          else Done (pushAll vm (take (unat n) arr))
      | _ \<Rightarrow> Undefined)"

definition IS_LIST :: "JStarVM \<Rightarrow> Value \<Rightarrow> bool" where
  "IS_LIST vm v = (case v of
       OBJ_VAL r \<Rightarrow> (case map_option obj_body (deref (heap vm) r) of
                       Some (OBJ_LIST _) \<Rightarrow> True | _ \<Rightarrow> False)
     | _ \<Rightarrow> False)"

definition IS_TUPLE :: "JStarVM \<Rightarrow> Value \<Rightarrow> bool" where
  "IS_TUPLE vm v = (case v of
       OBJ_VAL r \<Rightarrow> (case map_option obj_body (deref (heap vm) r) of
                       Some (OBJ_TUPLE _) \<Rightarrow> True | _ \<Rightarrow> False)
     | _ \<Rightarrow> False)"

text \<open>\<open>OP_UNPACK n\<close>, with the operand byte \<open>n\<close> already decoded.\<close>

definition OP_UNPACK :: "JStarVM \<Rightarrow> 8 word \<Rightarrow> Outcome" where
  "OP_UNPACK vm n =
     (if \<not> IS_LIST vm (peek vm) \<and> \<not> IS_TUPLE vm (peek vm)
      then (case Option.bind (getClass vm (peek vm)) (cls_name vm) of
              Some nm \<Rightarrow> Raised (JsrRaise ''TypeException''
                                   ''Can unpack only Tuple or List, got %s.'' [S nm]) vm
            | None \<Rightarrow> Undefined)
      else (case pop vm of
              (OBJ_VAL ob, vm') \<Rightarrow> unpackObject vm' ob n
            | _ \<Rightarrow> Undefined))"

text \<open>
  The state of \<open>var a, b = (1, 2, 3)\<close> at its \<open>OP_UNPACK 2\<close>: the tuple (object 2, of
  class Tuple, object 1) is on top of a stack of four slots.
\<close>

definition vm_unpack :: JStarVM where
  "vm_unpack = \<lparr>stack = [OBJ_VAL 2, NULL_VAL, NULL_VAL, NULL_VAL], sp = 1, frames = [],
     module = 0,
     heap = [Obj 0 (OBJ_CLASS ''Tuple'' 0 []),
             Obj 1 (OBJ_TUPLE [NUM_VAL 1, NUM_VAL 2, NUM_VAL 3])],
     upvalues = [],
     numClass = 0, boolClass = 0, nullClass = 0, modClass = 0, tupClass = 1, funClass = 0\<rparr>"

section \<open>Assignment to a global (OP_SET_GLOBAL)\<close>

text \<open>
  \<open>OP_SET_GLOBAL name\<close>, with the name already read from the constant pool:
  \<open>hashTablePut\<close> writes \<open>peek(vm)\<close> into the globals of the current module, and the
  handler raises when it reports a new key. \<open>Done\<close> is the handler's \<open>DISPATCH()\<close>,
  \<open>Raised\<close> its \<open>jsrRaise\<close> followed by \<open>UNWIND_STACK\<close>.
\<close>

definition OP_SET_GLOBAL :: "JStarVM \<Rightarrow> string \<Rightarrow> Outcome" where
  "OP_SET_GLOBAL vm name =
     (case deref (heap vm) (module vm) of
        Some (Obj c (OBJ_MODULE mname globals)) \<Rightarrow>
          (case hashTablePut globals name (peek vm) of
             (new, globals') \<Rightarrow>
               (let vm' = vm\<lparr>heap := heap_store (heap vm) (module vm)
                                         (Obj c (OBJ_MODULE mname globals'))\<rparr>
                in if new
                   then Raised (JsrRaise ''NameException'' ''Name `%s` is not defined.''
                                  [S name]) vm'
                   else Done vm'))
      | _ \<Rightarrow> Undefined)"

text \<open>The globals of the module a pointer refers to.\<close>

definition mod_globals :: "JStarVM \<Rightarrow> ref \<Rightarrow> HashTable option" where
  "mod_globals vm m = (case deref (heap vm) m of
       Some (Obj _ (OBJ_MODULE _ globals)) \<Rightarrow> Some globals
     | _ \<Rightarrow> None)"

text \<open>
  The state of \<open>y = 5\<close> in a module (object 1) that defines only \<open>x\<close>: the value 5 is
  on top of the stack.
\<close>

definition vm_global :: JStarVM where
  "vm_global = \<lparr>stack = [NUM_VAL 5, NULL_VAL], sp = 1, frames = [], module = 1,
     heap = [Obj 0 (OBJ_MODULE ''__main__'' [(''x'', NUM_VAL 1)])],
     upvalues = [],
     numClass = 0, boolClass = 0, nullClass = 0, modClass = 0, tupClass = 0, funClass = 0\<rparr>"

section \<open>Methods and super (OP_DEF_METHOD, OP_SUPER, OP_SUPER_BIND, bindMethod)\<close>

text \<open>
  \<open>LOAD_FRAME\<close> caches the top frame's closure and that closure's function in the
  registers \<open>closure\<close> and \<open>fn\<close>; \<open>frame_fn\<close> is the register \<open>fn\<close>.
\<close>

definition frame_fn :: "JStarVM \<Rightarrow> ref option" where
  "frame_fn vm = (case frames vm of
       [] \<Rightarrow> None
     | f # _ \<Rightarrow> (case deref (heap vm) (fn f) of
                   Some (Obj _ (OBJ_CLOSURE fr _)) \<Rightarrow> Some fr
                 | _ \<Rightarrow> None))"

text \<open>\<open>fn->code.consts\<close>: the constant pool of the function a pointer refers to.\<close>

definition fn_consts :: "JStarVM \<Rightarrow> ref \<Rightarrow> Value list option" where
  "fn_consts vm fr = (case deref (heap vm) fr of
       Some (Obj _ (OBJ_FUNCTION _ consts)) \<Rightarrow> Some consts
     | _ \<Rightarrow> None)"

text \<open>\<open>AS_CLASS(fn->code.consts.arr[0])\<close>, as \<open>OP_SUPER\<close> and \<open>OP_SUPER_BIND\<close> read it.\<close>

definition super_const :: "JStarVM \<Rightarrow> ref option" where
  "super_const vm = (case Option.bind (frame_fn vm) (fn_consts vm) of
       Some (OBJ_VAL supc # _) \<Rightarrow> Some supc
     | _ \<Rightarrow> None)"

text \<open>
  \<open>OP_SUPER\<close> and \<open>OP_SUPER_0\<close> ... \<open>OP_SUPER_10\<close>, with \<open>argc\<close> and the name decoded.
\<close>

definition OP_SUPER :: "JStarVM \<Rightarrow> 8 word \<Rightarrow> string \<Rightarrow> Outcome" where
  "OP_SUPER vm argc name =
     (case super_const vm of
        Some supc \<Rightarrow> invokeMethod vm supc name argc
      | None \<Rightarrow> Undefined)"

text \<open>
  Modelled from the spec: \<open>newBoundMethod(vm, bound, method)\<close> (object.c is not under
  src/) allocates a BoundMethod holding the receiver and the callable.
\<close>

definition newBoundMethod :: "JStarVM \<Rightarrow> Value \<Rightarrow> ref \<Rightarrow> ref \<times> JStarVM" where
  "newBoundMethod vm bound method =
     (case allocate (heap vm) (Obj (funClass vm) (OBJ_BOUND_METHOD bound method)) of
        (r, h) \<Rightarrow> (r, vm\<lparr>heap := h\<rparr>))"

text \<open>
  \<open>bindMethod\<close> returns false, changing nothing, when the class has no such method;
  otherwise it replaces the receiver on top of the stack by a bound method.
\<close>

definition bindMethod :: "JStarVM \<Rightarrow> ref \<Rightarrow> string \<Rightarrow> (bool \<times> JStarVM) option" where
  "bindMethod vm cls name =
     (case cls_methods vm cls of
        None \<Rightarrow> None
      | Some methods \<Rightarrow>
          (case hashTableGet methods name of
             None \<Rightarrow> Some (False, vm)
           | Some (OBJ_VAL m) \<Rightarrow>
               (case newBoundMethod vm (peek vm) m of
                  (boundMeth, vm') \<Rightarrow> Some (True, push (snd (pop vm')) (OBJ_VAL boundMeth)))
           | Some _ \<Rightarrow> None))"

definition OP_SUPER_BIND :: "JStarVM \<Rightarrow> string \<Rightarrow> Outcome" where
  "OP_SUPER_BIND vm name =
     (case super_const vm of
        None \<Rightarrow> Undefined
      | Some cls \<Rightarrow>
          (case bindMethod vm cls name of
             None \<Rightarrow> Undefined
           | Some (True, vm') \<Rightarrow> Done vm'
           | Some (False, vm') \<Rightarrow>
               (case cls_name vm' cls of
                  Some cname \<Rightarrow> Raised (JsrRaise ''MethodException''
                                          ''Method %s.%s() doesn't exists'' [S cname, S name]) vm'
                | None \<Rightarrow> Undefined)))"

text \<open>
  \<open>OP_DEF_METHOD name\<close>: the class is \<open>peek2\<close>, the method's closure \<open>peek\<close>. The
  superclass of the class is written into slot 0 of the constant pool of the closure's
  function, then the closure is popped into the method table.
\<close>

definition OP_DEF_METHOD :: "JStarVM \<Rightarrow> string \<Rightarrow> Outcome" where
  "OP_DEF_METHOD vm methodName =
     (case (peek2 vm, peek vm) of
        (OBJ_VAL cls, OBJ_VAL cl) \<Rightarrow>
          (case (deref (heap vm) cls, deref (heap vm) cl) of
             (Some (Obj k (OBJ_CLASS cname superCls methods)), Some (Obj _ (OBJ_CLOSURE fr _))) \<Rightarrow>
               (case deref (heap vm) fr of
                  Some (Obj kf (OBJ_FUNCTION c consts)) \<Rightarrow>
                    if consts = [] then Undefined
                    else (let h = heap_store (heap vm) fr
                                    (Obj kf (OBJ_FUNCTION c (consts[0 := OBJ_VAL superCls])))
                          in case pop (vm\<lparr>heap := h\<rparr>) of
                               (v, vm') \<Rightarrow>
                                 Done (vm'\<lparr>heap := heap_store h cls
                                         (Obj k (OBJ_CLASS cname superCls
                                            (snd (hashTablePut methods methodName v))))\<rparr>))
                | _ \<Rightarrow> Undefined)
           | _ \<Rightarrow> Undefined)
      | _ \<Rightarrow> Undefined)"

text \<open>
  Classes \<open>A\<close> (object 1), \<open>B is A\<close> (object 2) and \<open>C is B\<close> (object 3); \<open>A\<close> and \<open>B\<close>
  both define \<open>m\<close> (objects 6 and 7), and \<open>C\<close> has inherited \<open>B\<close>'s. The function
  (object 4, closure 5) is the body of a method \<open>g\<close> of \<open>B\<close> that calls \<open>super.m()\<close>.
  \<open>vm_def_method\<close> is the state at \<open>OP_DEF_METHOD g\<close>, with \<open>B\<close> and the closure on
  the stack; \<open>vm_super\<close> is the state at the \<open>OP_SUPER_0 m\<close> of that body, run on an
  instance of \<open>C\<close> (object 8).
\<close>

definition heap_classes :: "Value \<Rightarrow> HashTable \<Rightarrow> Heap" where
  "heap_classes slot0 methodsB =
     [Obj 0 (OBJ_CLASS ''A'' 0 [(''m'', OBJ_VAL 6)]),
      Obj 0 (OBJ_CLASS ''B'' 1 methodsB),
      Obj 0 (OBJ_CLASS ''C'' 2 [(''m'', OBJ_VAL 7)]),
      Obj 0 (OBJ_FUNCTION \<lparr>vararg = False, argsCount = 0, defaultc = 0, defaults = [],
                            c_module = 0, c_name = ''g''\<rparr> [slot0, NUM_VAL 2]),
      Obj 0 (OBJ_CLOSURE 4 []),
      Obj 0 (OBJ_NATIVE \<lparr>vararg = False, argsCount = 0, defaultc = 0, defaults = [],
                          c_module = 0, c_name = ''A.m''\<rparr>),
      Obj 0 (OBJ_NATIVE \<lparr>vararg = False, argsCount = 0, defaultc = 0, defaults = [],
                          c_module = 0, c_name = ''B.m''\<rparr>),
      Obj 3 (OBJ_INST [])]"

definition vm_def_method :: JStarVM where
  "vm_def_method = \<lparr>stack = [OBJ_VAL 2, OBJ_VAL 5, NULL_VAL, NULL_VAL], sp = 2, frames = [],
     module = 0, heap = heap_classes NULL_VAL [(''m'', OBJ_VAL 7)],
     upvalues = [],
     numClass = 0, boolClass = 0, nullClass = 0, modClass = 0, tupClass = 0, funClass = 0\<rparr>"

definition vm_super :: JStarVM where
  "vm_super = \<lparr>stack = [OBJ_VAL 8, NULL_VAL, NULL_VAL, NULL_VAL], sp = 1,
     frames = [\<lparr>ip = 3, frameStack = 0, fn = 5, handlers = []\<rparr>],
     module = 0, heap = heap_classes (OBJ_VAL 1) [(''m'', OBJ_VAL 7), (''g'', OBJ_VAL 5)],
     upvalues = [],
     numClass = 0, boolClass = 0, nullClass = 0, modClass = 0, tupClass = 0, funClass = 0\<rparr>"

section \<open>Upvalues (captureUpvalue, closeUpvalues)\<close>

text \<open>
  Modelled from the spec: \<open>newUpvalue(vm, addr)\<close> (object.c is not under src/) allocates
  an open upvalue that points at the given stack slot and is linked to nothing.
\<close>

definition newUpvalue :: "JStarVM \<Rightarrow> nat \<Rightarrow> ref \<times> JStarVM" where
  "newUpvalue vm addr =
     (case allocate (heap vm) (Obj 0 (OBJ_UPVALUE (StackSlot addr) NULL_VAL)) of
        (u, h) \<Rightarrow> (u, vm\<lparr>heap := h\<rparr>))"

text \<open>\<open>upvalue->addr\<close> of the upvalue a pointer refers to.\<close>

definition upvalue_addr :: "Heap \<Rightarrow> ref \<Rightarrow> UpAddr option" where
  "upvalue_addr h u = (case deref h u of
       Some (Obj _ (OBJ_UPVALUE a _)) \<Rightarrow> Some a
     | _ \<Rightarrow> None)"

text \<open>
  The loop of \<open>captureUpvalue\<close>,
  \<open>while(upvalue != NULL && upvalue->addr > addr) { prev = upvalue; upvalue = upvalue->next; }\<close>:
  it returns the nodes walked over (the last of them is \<open>prev\<close>) and the rest of the list
  (its head is \<open>upvalue\<close>). The addresses compared are slots of the stack; comparing
  with the address of a closed upvalue's own cell is not defined.
\<close>

fun capture_walk :: "Heap \<Rightarrow> ref list \<Rightarrow> nat \<Rightarrow> (ref list \<times> ref list) option" where
  "capture_walk h [] addr = Some ([], [])"
| "capture_walk h (u # us) addr =
     (case upvalue_addr h u of
        Some (StackSlot a) \<Rightarrow>
          if a > addr
          then (case capture_walk h us addr of
                  Some (before, rest) \<Rightarrow> Some (u # before, rest)
                | None \<Rightarrow> None)
          else Some ([], u # us)
      | _ \<Rightarrow> None)"

text \<open>
  The end of \<open>captureUpvalue\<close>: the new upvalue is linked after \<open>prev\<close> (or becomes the
  head) and before \<open>upvalue\<close>.
\<close>

definition createUpvalue :: "JStarVM \<Rightarrow> nat \<Rightarrow> ref list \<Rightarrow> ref list \<Rightarrow> ref \<times> JStarVM" where
  "createUpvalue vm addr before rest =
     (case newUpvalue vm addr of
        (created, vm') \<Rightarrow> (created, vm'\<lparr>upvalues := before @ created # rest\<rparr>))"

definition captureUpvalue :: "JStarVM \<Rightarrow> nat \<Rightarrow> (ref \<times> JStarVM) option" where
  "captureUpvalue vm addr =
     (if upvalues vm = [] then Some (createUpvalue vm addr [] [])
      else (case capture_walk (heap vm) (upvalues vm) addr of
              None \<Rightarrow> None
            | Some (before, rest) \<Rightarrow>
                (case rest of
                   u # _ \<Rightarrow>
                     if upvalue_addr (heap vm) u = Some (StackSlot addr) then Some (u, vm)
                     else Some (createUpvalue vm addr before rest)
                 | [] \<Rightarrow> Some (createUpvalue vm addr before rest))))"

text \<open>
  The loop of \<open>closeUpvalues\<close>: while the head of the list points at or above \<open>last\<close>,
  the slot's value is copied into the upvalue (\<open>upvalue->closed = *upvalue->addr\<close>),
  the address is redirected to that cell, and the head is unlinked. A read outside the
  stack array is undefined.
\<close>

fun close_loop :: "Value list \<Rightarrow> Heap \<Rightarrow> ref list \<Rightarrow> nat \<Rightarrow> (Heap \<times> ref list) option" where
  "close_loop st h [] last' = Some (h, [])"
| "close_loop st h (u # us) last' =
     (case deref h u of
        Some (Obj k (OBJ_UPVALUE (StackSlot a) _)) \<Rightarrow>
          if a \<ge> last'
          then (if a < length st
                then close_loop st (heap_store h u (Obj k (OBJ_UPVALUE OwnCell (st ! a)))) us last'
                else None)
          else Some (h, u # us)
      | _ \<Rightarrow> None)"

definition closeUpvalues :: "JStarVM \<Rightarrow> nat \<Rightarrow> JStarVM option" where
  "closeUpvalues vm last' =
     (case close_loop (stack vm) (heap vm) (upvalues vm) last' of
        Some (h, us) \<Rightarrow> Some (vm\<lparr>heap := h, upvalues := us\<rparr>)
      | None \<Rightarrow> None)"

text \<open>
  The invariant of the open list: every node is an open upvalue, the stack slots they
  point at are strictly descending from the head on (so no slot has two upvalues), and
  every slot lies in the stack array. \<open>open_slots\<close> lists the slots, head first.
\<close>

fun open_slots :: "Heap \<Rightarrow> ref list \<Rightarrow> nat list option" where
  "open_slots h [] = Some []"
| "open_slots h (u # us) =
     (case (upvalue_addr h u, open_slots h us) of
        (Some (StackSlot a), Some slots) \<Rightarrow> Some (a # slots)
      | _ \<Rightarrow> None)"

definition upvalues_inv :: "JStarVM \<Rightarrow> bool" where
  "upvalues_inv vm =
     (case open_slots (heap vm) (upvalues vm) of
        Some slots \<Rightarrow> sorted_wrt (>) slots \<and> list_all (\<lambda>a. a < length (stack vm)) slots
      | None \<Rightarrow> False)"

text \<open>
  A stack of six slots with open upvalues on slot 3 (object 1) and slot 1 (object 2).
\<close>

definition vm_upvalues :: JStarVM where
  "vm_upvalues = \<lparr>stack = [NUM_VAL 10, NUM_VAL 20, NUM_VAL 30, NUM_VAL 40, NUM_VAL 50, NULL_VAL],
     sp = 5, frames = [], module = 0,
     heap = [Obj 0 (OBJ_UPVALUE (StackSlot 3) NULL_VAL), Obj 0 (OBJ_UPVALUE (StackSlot 1) NULL_VAL)],
     upvalues = [1, 2],
     numClass = 0, boolClass = 0, nullClass = 0, modClass = 0, tupClass = 0, funClass = 0\<rparr>"

section \<open>The dispatch loop: jumps, calls, return and handlers (runEval, unwindStack)\<close>

text \<open>
  How the handler of an opcode leaves: \<open>Dispatch vm\<close> is \<open>DISPATCH()\<close>, the loop goes on
  with the next instruction of the top frame of \<open>vm\<close>; \<open>EvalReturn b vm\<close> is
  \<open>return b\<close> from \<open>runEval\<close>; \<open>EvalUndefined\<close> is undefined behaviour. The registers
  \<open>frame\<close>, \<open>frameStack\<close>, \<open>closure\<close>, \<open>fn\<close> and \<open>ip\<close> are the fields of the top frame:
  \<open>SAVE_FRAME\<close> and \<open>LOAD_FRAME\<close> keep the two in step.
\<close>

datatype Eval = EvalUndefined | Dispatch JStarVM | EvalReturn bool JStarVM

text \<open>\<open>enum UnwindCause\<close>, as the numbers that \<open>NUM_VAL(cause)\<close> pushes.\<close>

definition CAUSE_EXCEPT :: int where
  "CAUSE_EXCEPT = 0"

definition CAUSE_RETURN :: int where
  "CAUSE_RETURN = 1"

text \<open>The conversion of a double to an integer type in C truncates towards zero.\<close>

definition double_to_int :: "real \<Rightarrow> int" where
  "double_to_int r = (if 0 \<le> r then \<lfloor>r\<rfloor> else \<lceil>r\<rceil>)"



text \<open>
  \<open>RESTORE_HANDLER(h, frame, cause, excVal)\<close>, on the top frame, whose handler \<open>h\<close> has
  just been popped.
\<close>

definition RESTORE_HANDLER :: "JStarVM \<Rightarrow> Handler \<Rightarrow> int \<Rightarrow> Value \<Rightarrow> JStarVM option" where
  "RESTORE_HANDLER vm h cause excVal =
     (case frames vm of
        [] \<Rightarrow> None
      | f # fs \<Rightarrow>
          (let vm1 = vm\<lparr>frames := f\<lparr>ip := address h\<rparr> # fs, sp := savesp h\<rparr> in
           case closeUpvalues vm1 (sp vm1 - 1) of
             None \<Rightarrow> None
           | Some vm2 \<Rightarrow> Some (push (push vm2 excVal) (NUM_VAL (of_int cause)))))"

text \<open>The module of the function of a frame, as \<open>unwindStack\<close> and \<open>OP_RETURN\<close> read it.\<close>

definition frame_module :: "Heap \<Rightarrow> Frame \<Rightarrow> ref option" where
  "frame_module h f =
     (case map_option obj_body (deref h (fn f)) of
        Some (OBJ_CLOSURE fr _) \<Rightarrow>
          (case map_option obj_body (deref h fr) of
             Some (OBJ_FUNCTION c _) \<Rightarrow> Some (c_module c)
           | _ \<Rightarrow> None)
      | Some (OBJ_NATIVE c) \<Rightarrow> Some (c_module c)
      | _ \<Rightarrow> None)"

text \<open>
  \<open>unwindStack(vm, depth)\<close>, with the exception on top of the stack. The two
  \<open>ASSERT\<close>s and the recording of the frame in the stack trace (\<open>stRecordFrame\<close>) are
  left out: they change nothing of the state modelled here.
\<close>

function unwindStack :: "JStarVM \<Rightarrow> nat \<Rightarrow> (bool \<times> JStarVM) option" where
  "unwindStack vm depth =
     (if length (frames vm) > depth
      then (case frames vm of
              [] \<Rightarrow> None
            | f # fs \<Rightarrow>
                (case frame_module (heap vm) f of
                   None \<Rightarrow> None
                 | Some m \<Rightarrow>
                     (case handlers f of
                        h # hs \<Rightarrow>
                          (case pop (vm\<lparr>module := m\<rparr>) of
                             (exc, vm') \<Rightarrow>
                               map_option (Pair True)
                                 (RESTORE_HANDLER (vm'\<lparr>frames := f\<lparr>handlers := hs\<rparr> # fs\<rparr>)
                                    h CAUSE_EXCEPT exc))
                      | [] \<Rightarrow>
                          (case closeUpvalues (vm\<lparr>module := m\<rparr>) (frameStack f) of
                             None \<Rightarrow> None
                           | Some vm' \<Rightarrow> unwindStack (vm'\<lparr>frames := fs\<rparr>) depth))))
      else Some (False, vm))"
  by pat_completeness auto
termination
  by (relation "measure (\<lambda>(vm, depth). length (frames vm))") auto

declare unwindStack.simps [simp del]

text \<open>\<open>UNWIND_STACK(vm)\<close>: leave \<open>runEval\<close> with false, or go on at the handler.\<close>

definition UNWIND_STACK :: "JStarVM \<Rightarrow> nat \<Rightarrow> Eval" where
  "UNWIND_STACK vm depth =
     (case unwindStack vm depth of
        None \<Rightarrow> EvalUndefined
      | Some (False, vm') \<Rightarrow> EvalReturn False vm'
      | Some (True, vm') \<Rightarrow> Dispatch vm')"

text \<open>
  The loop of \<open>OP_RETURN\<close> over the handlers of the frame: handlers are popped until
  an \<open>ensure\<close> handler is found; it returns that handler and the handlers left.
\<close>

fun return_handlers :: "Handler list \<Rightarrow> (Handler \<times> Handler list) option" where
  "return_handlers [] = None"
| "return_handlers (h # hs) =
     (if h_type h = HANDLER_ENSURE then Some (h, hs) else return_handlers hs)"

text \<open>\<open>op_return\<close>: the handler of \<open>OP_RETURN\<close>, which \<open>OP_END_TRY\<close> jumps into.\<close>

definition op_return :: "JStarVM \<Rightarrow> nat \<Rightarrow> Eval" where
  "op_return vm depth =
     (case frames vm of
        [] \<Rightarrow> EvalUndefined
      | f # fs \<Rightarrow>
          (case pop vm of
             (ret, vm1) \<Rightarrow>
               (case return_handlers (handlers f) of
                  Some (h, hs) \<Rightarrow>
                    (case RESTORE_HANDLER (vm1\<lparr>frames := f\<lparr>handlers := hs\<rparr> # fs\<rparr>)
                            h CAUSE_RETURN ret of
                       None \<Rightarrow> EvalUndefined
                     | Some vm2 \<Rightarrow> Dispatch vm2)
                | None \<Rightarrow>
                    (case closeUpvalues (vm1\<lparr>frames := f\<lparr>handlers := []\<rparr> # fs\<rparr>)
                            (frameStack f) of
                       None \<Rightarrow> EvalUndefined
                     | Some vm2 \<Rightarrow>
                         (let vm3 = (push (vm2\<lparr>sp := frameStack f\<rparr>) ret)\<lparr>frames := fs\<rparr> in
                          if length fs = depth then EvalReturn True vm3
                          else (case fs of
                                  [] \<Rightarrow> EvalUndefined
                                | g # _ \<Rightarrow>
                                    (case frame_module (heap vm3) g of
                                       None \<Rightarrow> EvalUndefined
                                     | Some m \<Rightarrow> Dispatch (vm3\<lparr>module := m\<rparr>))))))))"

text \<open>
  \<open>OP_END_TRY\<close>: the test is on \<open>peek2\<close>, the value under the cause. A cause that is
  not a number, or neither of the two causes, is undefined (\<open>UNREACHABLE\<close>).
\<close>

definition OP_END_TRY :: "JStarVM \<Rightarrow> nat \<Rightarrow> Eval" where
  "OP_END_TRY vm depth =
     (if \<not> IS_NULL (peek2 vm)
      then (case pop vm of
              (NUM_VAL c, vm') \<Rightarrow>
                if double_to_int c = CAUSE_EXCEPT then UNWIND_STACK vm' depth
                else if double_to_int c = CAUSE_RETURN then op_return vm' depth
                else EvalUndefined
            | _ \<Rightarrow> EvalUndefined)
      else Dispatch vm)"

text \<open>
  A function (closure 2 of function 1, module 3) called at depth 0, inside
  \<open>try ... ensure ... end\<close>: its frame has one \<open>ensure\<close> handler, installed when the
  stack held only the callee. \<open>vm_return ret\<close> is the state at the \<open>OP_RETURN\<close> of a
  \<open>return\<close> inside the \<open>try\<close>, with the value to return on top of the stack.
\<close>

definition vm_return :: "Value \<Rightarrow> JStarVM" where
  "vm_return ret = \<lparr>stack = [OBJ_VAL 2, ret, NULL_VAL, NULL_VAL], sp = 2,
     frames = [\<lparr>ip = 9, frameStack = 0, fn = 2,
                handlers = [\<lparr>h_type = HANDLER_ENSURE, address = 20, savesp = 1\<rparr>]\<rparr>],
     module = 3,
     heap = [Obj 0 (OBJ_FUNCTION \<lparr>vararg = False, argsCount = 0, defaultc = 0, defaults = [],
                                   c_module = 3, c_name = ''f''\<rparr> []),
             Obj 0 (OBJ_CLOSURE 1 []),
             Obj 0 (OBJ_MODULE ''__main__'' [])],
     upvalues = [],
     numClass = 0, boolClass = 0, nullClass = 0, modClass = 0, tupClass = 0, funClass = 0\<rparr>"

text \<open>
  The state in which the \<open>ensure\<close> block of that function starts and, if the block
  leaves the stack as it found it, the state at its \<open>OP_END_TRY\<close>: the returned value
  and \<open>CAUSE_RETURN\<close> are on the stack, and the handler is gone.
\<close>

definition vm_end_try :: "Value \<Rightarrow> JStarVM" where
  "vm_end_try ret = (vm_return ret)\<lparr>stack := [OBJ_VAL 2, ret, NUM_VAL 1, NULL_VAL], sp := 3,
     frames := [\<lparr>ip = 20, frameStack = 0, fn = 2, handlers = []\<rparr>]\<rparr>"



section \<open>The import path of the command line (initImportPaths, cli.c)\<close>

text \<open>
  Modelled from the spec: \<open>jsrAddImportPath\<close> (jstar.c is not under src/) adds an
  import path; here the import path is the list of the paths added, in the order in
  which they were added ("the custom path is appended first", says cli.c), which is
  the order in which an import searches them.
\<close>

definition jsrAddImportPath :: "string list \<Rightarrow> string \<Rightarrow> string list" where
  "jsrAddImportPath importpaths path = importpaths @ [path]"

text \<open>
  Modelled from the spec: the buffer operations declared in buffer.h (buffer.c is not
  under src/). A buffer is the bytes appended to it so far; \<open>jsrBufferAppend(b, str, len)\<close>
  is given the \<open>len\<close> bytes at \<open>str\<close>; \<open>buf.data\<close> read as a C string is the contents.
\<close>

definition jsrBufferAppend :: "string \<Rightarrow> string \<Rightarrow> string" where
  "jsrBufferAppend buf str = buf @ str"

definition jsrBufferClear :: "string \<Rightarrow> string" where
  "jsrBufferClear buf = []"

text \<open>
  The loop of \<open>initImportPaths\<close> over the bytes of \<open>JSTARPATH\<close>, from index \<open>i\<close> on: at
  every colon the bytes since \<open>last\<close> are added as an import path. It returns \<open>last\<close>,
  the buffer and the import path.
\<close>

function split_loop :: "string \<Rightarrow> nat \<Rightarrow> nat \<Rightarrow> string \<Rightarrow> string list \<Rightarrow> nat \<times> string \<times> string list" where
  "split_loop jstarPath i last' buf importpaths =
     (if i < length jstarPath
      then (if jstarPath ! i = CHR '':''
            then (let buf1 = jsrBufferAppend buf (take (i - last') (drop last' jstarPath));
                      importpaths1 = jsrAddImportPath importpaths buf1
                  in split_loop jstarPath (i + 1) (i + 1) (jsrBufferClear buf1) importpaths1)
            else split_loop jstarPath (i + 1) last' buf importpaths)
      else (last', buf, importpaths))"
  by pat_completeness auto
termination
  by (relation "measure (\<lambda>(jstarPath, i, last', buf, importpaths). length jstarPath - i)") auto

text \<open>
  \<open>initImportPaths(path)\<close>: \<open>ignoreEnv\<close> is \<open>opts.ignoreEnv\<close> (the \<open>-E\<close> flag), \<open>env\<close> the
  result of \<open>getenv("JSTARPATH")\<close>, \<open>None\<close> when the variable is not set.
\<close>

definition initImportPaths :: "bool \<Rightarrow> string option \<Rightarrow> string list \<Rightarrow> string \<Rightarrow> string list" where
  "initImportPaths ignoreEnv env importpaths path =
     (let importpaths1 = jsrAddImportPath importpaths path in
      if ignoreEnv then importpaths1
      else (case env of
              None \<Rightarrow> importpaths1
            | Some jstarPath \<Rightarrow>
                (case split_loop jstarPath 0 0 [] importpaths1 of
                   (last', buf, importpaths2) \<Rightarrow>
                     jsrAddImportPath importpaths2
                       (jsrBufferAppend buf
                          (take (length jstarPath - last') (drop last' jstarPath))))))"

declare split_loop.simps [simp del]

section \<open>Properties\<close>

subsection \<open>Stack primitives\<close>

lemma sp_pushAll: "sp (pushAll vm vs) = sp vm + length vs"
  by (induction vs arbitrary: vm) (simp_all add: push_def)

lemma length_stack_pushAll: "length (stack (pushAll vm vs)) = length (stack vm)"
  by (induction vs arbitrary: vm) (simp_all add: push_def)

lemma stack_pushAll_below:
  "i < sp vm \<Longrightarrow> stack (pushAll vm vs) ! i = stack vm ! i"
  by (induction vs arbitrary: vm) (simp_all add: push_def)

lemma stack_pushAll_nth:
  "sp vm + length vs \<le> length (stack vm) \<Longrightarrow> i < length vs \<Longrightarrow>
   stack (pushAll vm vs) ! (sp vm + i) = vs ! i"
proof (induction vs arbitrary: vm i)
  case Nil
  then show ?case by simp
next
  case (Cons v vs)
  show ?case
  proof (cases i)
    case 0
    have "stack (pushAll (push vm v) vs) ! sp vm = stack (push vm v) ! sp vm"
      by (rule stack_pushAll_below) (simp add: push_def)
    with Cons.prems 0 show ?thesis by (simp add: push_def)
  next
    case (Suc j)
    have "stack (pushAll (push vm v) vs) ! (sp (push vm v) + j) = vs ! j"
      using Cons.prems Suc by (intro Cons.IH) (simp_all add: push_def)
    with Suc show ?thesis by (simp add: push_def)
  qed
qed

lemma heap_pushAll: "heap (pushAll vm vs) = heap vm"
  by (induction vs arbitrary: vm) (simp_all add: push_def)

subsection \<open>Heap primitives\<close>

lemma deref_heap_store:
  "deref h r = Some ob \<Longrightarrow> deref (heap_store h r ob') r = Some ob'"
  by (auto simp: deref_def heap_store_def split: if_splits)

lemma heap_store_same: "deref h r = Some ob \<Longrightarrow> heap_store h r ob = h"
proof -
  assume "deref h r = Some ob"
  then have "h ! (r - 1) = ob"
    by (simp add: deref_def split: if_splits)
  then show ?thesis
    unfolding heap_store_def by (metis list_update_id)
qed

lemma heap_store_twice: "heap_store (heap_store h r a) r b = heap_store h r b"
  by (simp add: heap_store_def)

lemma deref_allocate_new:
  "deref (h @ [ob]) (Suc (length h)) = Some ob"
  by (simp add: deref_def)

lemma deref_fresh: "deref h (Suc (length h)) = None"
  by (simp add: deref_def)

lemma heap_store_new: "heap_store (h @ [ob]) (Suc (length h)) ob' = h @ [ob']"
  by (simp add: heap_store_def)

subsection \<open>Argument adjustment\<close>

lemma unat_succ_less: "(i :: 8 word) < d \<Longrightarrow> unat (i + 1) = Suc (unat i)"
proof -
  assume "i < d"
  then have "unat i < unat d" by (simp add: word_less_nat_alt)
  moreover have "unat d < 256" using unsigned_less [of d, where ?'a = nat] by simp
  ultimately have "unat i + 1 < 256" by simp
  then show ?thesis by (simp add: unat_word_ariths)
qed

lemma pushDefaults_pushAll:
  "length (defaults c) = unat (defaultc c) \<Longrightarrow>
   pushDefaults vm c i = pushAll vm (drop (unat i) (defaults c))"
proof (induction vm c i rule: pushDefaults.induct)
  case (1 vm c i)
  show ?case
  proof (cases "i < defaultc c")
    case True
    then have lt: "unat i < length (defaults c)"
      using "1.prems" by (simp add: word_less_nat_alt)
    have "pushDefaults vm c i = pushDefaults (push vm (defaults c ! unat i)) c (i + 1)"
      using True by (subst pushDefaults.simps) simp
    also have "\<dots> = pushAll (push vm (defaults c ! unat i)) (drop (unat (i + 1)) (defaults c))"
      using True "1.prems" by (rule "1.IH")
    also have "\<dots> = pushAll vm (defaults c ! unat i # drop (Suc (unat i)) (defaults c))"
      using True by (simp add: unat_succ_less)
    also have "defaults c ! unat i # drop (Suc (unat i)) (defaults c) = drop (unat i) (defaults c)"
      using lt by (rule Cons_nth_drop_Suc)
    finally show ?thesis .
  next
    case False
    then have "length (defaults c) \<le> unat i"
      using "1.prems" by (simp add: word_less_nat_alt)
    then show ?thesis
      using False by (subst pushDefaults.simps) simp
  qed
qed

lemma packLoop_slice:
  "k \<le> sp vm \<Longrightarrow> sp vm \<le> length (stack vm) \<Longrightarrow>
   deref (heap vm) args = Some (Obj c (OBJ_TUPLE arr)) \<Longrightarrow> k \<le> length arr \<Longrightarrow>
   packLoop vm args k =
     vm\<lparr>sp := sp vm - k,
        heap := heap_store (heap vm) args
                  (Obj c (OBJ_TUPLE (take k (drop (sp vm - k) (stack vm)) @ drop k arr)))\<rparr>"
proof (induction k arbitrary: vm arr)
  case 0
  have "heap_store (heap vm) args (Obj c (OBJ_TUPLE arr)) = heap vm"
    using "0.prems"(3) by (rule heap_store_same)
  then show ?case by simp
next
  case (Suc k)
  let ?v = "stack vm ! (sp vm - 1)"
  let ?vm' = "vm\<lparr>sp := sp vm - 1\<rparr>"
  let ?vm2 = "tuple_set ?vm' args k ?v"
  have ts: "?vm2 = vm\<lparr>sp := sp vm - 1,
       heap := heap_store (heap vm) args (Obj c (OBJ_TUPLE (arr[k := ?v])))\<rparr>"
    using Suc.prems(3) by (simp add: tuple_set_def)
  have d2: "deref (heap ?vm2) args = Some (Obj c (OBJ_TUPLE (arr[k := ?v])))"
    unfolding ts using Suc.prems(3) by (simp add: deref_heap_store)
  have "packLoop vm args (Suc k) = packLoop ?vm2 args k"
    by (simp add: pop_def)
  also have "\<dots> = ?vm2\<lparr>sp := sp ?vm2 - k,
        heap := heap_store (heap ?vm2) args
          (Obj c (OBJ_TUPLE (take k (drop (sp ?vm2 - k) (stack ?vm2)) @ drop k (arr[k := ?v]))))\<rparr>"
    using Suc.prems d2 unfolding ts by (intro Suc.IH) simp_all
  also have "\<dots> = vm\<lparr>sp := sp vm - Suc k,
        heap := heap_store (heap vm) args
          (Obj c (OBJ_TUPLE (take k (drop (sp vm - Suc k) (stack vm)) @ drop k (arr[k := ?v]))))\<rparr>"
    unfolding ts by (simp add: heap_store_twice)
  also have "drop k (arr[k := ?v]) = ?v # drop (Suc k) arr"
    using Suc.prems(4) by (simp add: drop_update_cancel Cons_nth_drop_Suc [symmetric] )
  also have "take k (drop (sp vm - Suc k) (stack vm)) @ ?v # drop (Suc k) arr
      = take (Suc k) (drop (sp vm - Suc k) (stack vm)) @ drop (Suc k) arr"
  proof -
    have "sp vm - Suc k + k = sp vm - 1" using Suc.prems(1) by simp
    moreover have "k < length (drop (sp vm - Suc k) (stack vm))"
      using Suc.prems(1,2) by simp
    ultimately show ?thesis
      by (simp add: take_Suc_conv_app_nth)
  qed
  finally show ?case .
qed


lemma packVarargs_tuple:
  assumes "k = unat count" and "k \<le> sp vm" and "sp vm \<le> length (stack vm)"
  shows "packVarargs vm count =
     vm\<lparr>stack := (stack vm)[sp vm - k := OBJ_VAL (Suc (length (heap vm)))],
        sp := sp vm - k + 1,
        heap := heap vm @ [Obj (tupClass vm) (OBJ_TUPLE (take k (drop (sp vm - k) (stack vm))))]\<rparr>"
proof -
  let ?t = "Suc (length (heap vm))"
  let ?vm1 = "vm\<lparr>heap := heap vm @ [Obj (tupClass vm) (OBJ_TUPLE (replicate k NULL_VAL))]\<rparr>"
  have nt: "newTuple vm k = (?t, ?vm1)"
    by (simp add: newTuple_def allocate_def)
  have "packLoop ?vm1 ?t k =
     ?vm1\<lparr>sp := sp ?vm1 - k,
        heap := heap_store (heap ?vm1) ?t
                  (Obj (tupClass vm) (OBJ_TUPLE (take k (drop (sp ?vm1 - k) (stack ?vm1))
                     @ drop k (replicate k NULL_VAL))))\<rparr>"
    using assms(2,3) by (intro packLoop_slice) (simp_all add: deref_allocate_new)
  then have "packLoop ?vm1 ?t k =
     vm\<lparr>sp := sp vm - k,
        heap := heap vm @ [Obj (tupClass vm) (OBJ_TUPLE (take k (drop (sp vm - k) (stack vm))))]\<rparr>"
    by (simp add: heap_store_new)
  then show ?thesis
    using nt assms(1) by (simp add: packVarargs_def push_def)
qed


lemma adjust_word_facts:
  fixes argc :: "8 word"
  assumes "defaultc c \<le> argsCount c"
  shows "unat (argsCount c - defaultc c) = unat (argsCount c) - unat (defaultc c)"
    and "(argsCount c = argsCount c - defaultc c) = (unat (defaultc c) = 0)"
    and "(argc > argsCount c) = (unat (argsCount c) < unat argc)"
    and "(argc < argsCount c - defaultc c) = (unat argc < unat (argsCount c) - unat (defaultc c))"
    and "(argc \<noteq> argsCount c) = (unat argc \<noteq> unat (argsCount c))"
proof -
  show l: "unat (argsCount c - defaultc c) = unat (argsCount c) - unat (defaultc c)"
    using assms by (simp add: unat_sub)
  have le: "unat (defaultc c) \<le> unat (argsCount c)"
    using assms by (simp add: word_le_nat_alt)
  show "(argsCount c = argsCount c - defaultc c) = (unat (defaultc c) = 0)"
    using le by (simp add: word_unat_eq_iff [of "argsCount c"] l del: unsigned_eq_0_iff) arith
  show "(argc > argsCount c) = (unat (argsCount c) < unat argc)"
    by (simp add: word_less_nat_alt)
  show "(argc < argsCount c - defaultc c) = (unat argc < unat (argsCount c) - unat (defaultc c))"
    by (simp add: word_less_nat_alt l)
  show "(argc \<noteq> argsCount c) = (unat argc \<noteq> unat (argsCount c))"
    by (simp add: word_unat_eq_iff)
qed

text \<open>
  C2. For a function of arity \<open>n\<close> with \<open>d\<close> default values (\<open>d \<le> n\<close>) called with
  \<open>a\<close> arguments, the checks are made in this order. Not vararg, \<open>d = 0\<close> and
  \<open>a \<noteq> n\<close>: TypeException "exactly" \<open>n\<close>. Otherwise not vararg and \<open>a > n\<close>:
  TypeException "at most" \<open>n\<close>. Otherwise, vararg or not, \<open>a < n - d\<close>: TypeException
  "at least" \<open>n - d\<close>. Otherwise the call proceeds: the default values at the indices
  \<open>[a - (n - d), d)\<close> are pushed in order above the arguments, and for a vararg function
  the \<open>max(a - n, 0)\<close> extra arguments are moved into a Tuple that was not in the heap
  before and that is pushed last.
\<close>

theorem adjustArguments_cases:
  fixes vm :: JStarVM and c :: FnCommon and argc :: "8 word"
  defines "n \<equiv> unat (argsCount c)" and "d \<equiv> unat (defaultc c)" and "a \<equiv> unat argc"
    and "t \<equiv> Suc (length (heap vm))"
  assumes wf: "defaultc c \<le> argsCount c" "length (defaults c) = unat (defaultc c)"
    and md: "mod_name vm (c_module c) = Some mn"
    and args: "unat argc \<le> sp vm"
    and room: "sp vm + unat (defaultc c) < length (stack vm)"
  shows
    "(\<not> vararg c \<and> d = 0 \<and> a \<noteq> n \<longrightarrow>
        adjustArguments vm c argc =
          Raised (JsrRaise ''TypeException''
                    ''Function `%s.%s` takes %s %d arguments, %d supplied.''
                    [S mn, S (c_name c), S ''exactly'', D (int n), D (int a)]) vm) \<and>
     (\<not> vararg c \<and> d \<noteq> 0 \<and> n < a \<longrightarrow>
        adjustArguments vm c argc =
          Raised (JsrRaise ''TypeException''
                    ''Function `%s.%s` takes %s %d arguments, %d supplied.''
                    [S mn, S (c_name c), S ''at most'', D (int n), D (int a)]) vm) \<and>
     ((vararg c \<or> d \<noteq> 0) \<and> a < n - d \<longrightarrow>
        adjustArguments vm c argc =
          Raised (JsrRaise ''TypeException''
                    ''Function `%s.%s` takes %s %d arguments, %d supplied.''
                    [S mn, S (c_name c), S ''at least'', D (int (n - d)), D (int a)]) vm) \<and>
     (\<not> vararg c \<and> n - d \<le> a \<and> a \<le> n \<longrightarrow>
        (\<exists>vm'. adjustArguments vm c argc = Done vm' \<and>
           vm' = pushAll vm (drop (a - (n - d)) (defaults c)) \<and>
           sp vm' = sp vm + (n - a) \<and> heap vm' = heap vm \<and>
           (\<forall>j. a - (n - d) \<le> j \<and> j < d \<longrightarrow>
                stack vm' ! (sp vm + (j - (a - (n - d)))) = defaults c ! j))) \<and>
     (vararg c \<and> n - d \<le> a \<longrightarrow>
        (\<exists>vm'. adjustArguments vm c argc = Done vm' \<and>
           sp vm' = sp vm + n + 1 - a \<and>
           peek vm' = OBJ_VAL t \<and>
           deref (heap vm) t = None \<and>
           deref (heap vm') t =
             Some (Obj (tupClass vm)
                     (OBJ_TUPLE (take (a - n) (drop (sp vm - (a - n)) (stack vm))))) \<and>
           (\<forall>j. a - (n - d) \<le> j \<and> j < d \<longrightarrow>
                stack vm' ! (sp vm + (j - (a - (n - d)))) = defaults c ! j)))"
proof -
  have wd:
    "unat (argsCount c - defaultc c) = n - d"
    "(argsCount c = argsCount c - defaultc c) = (d = 0)"
    "(argc > argsCount c) = (n < a)"
    "(argc < argsCount c - defaultc c) = (a < n - d)"
    "(argc \<noteq> argsCount c) = (a \<noteq> n)"
    unfolding n_def d_def a_def by (rule adjust_word_facts [OF wf(1)])+
  have dn: "d \<le> n"
    using wf(1) by (simp add: n_def d_def word_le_nat_alt)
  have len: "length (defaults c) = d"
    using wf(2) by (simp add: d_def)
  have ui: "uint (argsCount c) = int n" "uint argc = int a"
    "uint (argsCount c - defaultc c) = int (n - d)"
    by (simp_all only: uint_nat wd(1) n_def [symmetric] a_def [symmetric])
  have err: "argumentError vm c e s q =
      Raised (JsrRaise ''TypeException''
                ''Function `%s.%s` takes %s %d arguments, %d supplied.''
                [S mn, S (c_name c), S q, D e, D s]) vm" for e s q
    using md by (simp add: argumentError_def)
  let ?vm1 = "pushAll vm (drop (a - (n - d)) (defaults c))"
  have pd: "pushDefaults vm c (argc - (argsCount c - defaultc c)) = ?vm1" if "n - d \<le> a"
  proof -
    have "argsCount c - defaultc c \<le> argc"
      using that wd(1) by (simp add: word_le_nat_alt a_def)
    then have "unat (argc - (argsCount c - defaultc c)) = a - (n - d)"
      using wd(1) by (simp add: unat_sub a_def)
    then show ?thesis
      using wf(2) by (simp add: pushDefaults_pushAll)
  qed
  have sp1: "sp ?vm1 = sp vm + (d - (a - (n - d)))"
    by (simp add: sp_pushAll len)
  have nth1: "stack ?vm1 ! (sp vm + (j - (a - (n - d)))) = defaults c ! j"
    if "a - (n - d) \<le> j" "j < d" for j
  proof -
    have "stack ?vm1 ! (sp vm + (j - (a - (n - d))))
        = drop (a - (n - d)) (defaults c) ! (j - (a - (n - d)))"
      using that room len by (intro stack_pushAll_nth) (simp_all add: d_def)
    then show ?thesis
      using that len by simp
  qed
  have c1: "adjustArguments vm c argc = argumentError vm c (int n) (int a) ''exactly''"
    if "\<not> vararg c" "d = 0" "a \<noteq> n"
    using that wd by (simp add: adjustArguments_def Let_def ui)
  have c2: "adjustArguments vm c argc = argumentError vm c (int n) (int a) ''at most''"
    if "\<not> vararg c" "d \<noteq> 0" "n < a"
    using that wd by (simp add: adjustArguments_def Let_def ui)
  have c3: "adjustArguments vm c argc = argumentError vm c (int (n - d)) (int a) ''at least''"
    if "vararg c \<or> d \<noteq> 0" "a < n - d"
    using that wd by (auto simp add: adjustArguments_def Let_def ui)
  have c4: "adjustArguments vm c argc = Done ?vm1"
    if "\<not> vararg c" "n - d \<le> a" "a \<le> n"
    using that wd pd by (auto simp add: adjustArguments_def Let_def)
  have c5: "adjustArguments vm c argc =
      Done (packVarargs ?vm1 (if argc > argsCount c then argc - argsCount c else 0))"
    if "vararg c" "n - d \<le> a"
    using that wd pd by (auto simp add: adjustArguments_def Let_def)
  have r4: "\<exists>vm'. adjustArguments vm c argc = Done vm' \<and>
           vm' = ?vm1 \<and> sp vm' = sp vm + (n - a) \<and> heap vm' = heap vm \<and>
           (\<forall>j. a - (n - d) \<le> j \<and> j < d \<longrightarrow>
                stack vm' ! (sp vm + (j - (a - (n - d)))) = defaults c ! j)"
    if h: "\<not> vararg c" "n - d \<le> a" "a \<le> n"
  proof -
    have "sp ?vm1 = sp vm + (n - a)"
      using h dn unfolding sp1 by arith
    then show ?thesis
      using c4 [OF h] nth1 by (simp add: heap_pushAll)
  qed
  have r5: "\<exists>vm'. adjustArguments vm c argc = Done vm' \<and>
           sp vm' = sp vm + n + 1 - a \<and>
           peek vm' = OBJ_VAL t \<and>
           deref (heap vm) t = None \<and>
           deref (heap vm') t =
             Some (Obj (tupClass vm)
                     (OBJ_TUPLE (take (a - n) (drop (sp vm - (a - n)) (stack vm))))) \<and>
           (\<forall>j. a - (n - d) \<le> j \<and> j < d \<longrightarrow>
                stack vm' ! (sp vm + (j - (a - (n - d)))) = defaults c ! j)"
    if h: "vararg c" "n - d \<le> a"
  proof (cases "n < a")
    case True
    then have gt: "argc > argsCount c"
      using wd(3) by simp
    then have "argsCount c \<le> argc"
      by simp
    then have k: "unat (argc - argsCount c) = a - n"
      unfolding a_def n_def by (rule unat_sub)
    have e: "drop (a - (n - d)) (defaults c) = []"
      using True dn len by simp
    define vm' where "vm' =
       vm\<lparr>stack := (stack vm)[sp vm - (a - n) := OBJ_VAL t],
          sp := sp vm - (a - n) + 1,
          heap := heap vm @ [Obj (tupClass vm)
             (OBJ_TUPLE (take (a - n) (drop (sp vm - (a - n)) (stack vm))))]\<rparr>"
    have "packVarargs vm (argc - argsCount c) = vm'"
      unfolding vm'_def t_def using args room k
      by (intro packVarargs_tuple) (simp_all add: a_def)
    then have eq: "adjustArguments vm c argc = Done vm'"
      using c5 [OF h] gt e by simp
    have 1: "sp vm' = sp vm + n + 1 - a"
      using True args by (simp add: vm'_def a_def)
    have "sp vm - (a - n) < length (stack vm)"
      using room by simp
    then have 2: "peek vm' = OBJ_VAL t"
      by (simp add: vm'_def peek_def)
    have 3: "deref (heap vm) t = None"
      by (simp add: t_def deref_fresh)
    have 4: "deref (heap vm') t =
             Some (Obj (tupClass vm)
                     (OBJ_TUPLE (take (a - n) (drop (sp vm - (a - n)) (stack vm)))))"
      by (simp add: vm'_def t_def deref_allocate_new)
    have 5: "\<not> (a - (n - d) \<le> j \<and> j < d)" for j
      using True dn by arith
    from eq 1 2 3 4 5 show ?thesis
      by blast
  next
    case False
    then have ngt: "\<not> argc > argsCount c"
      using wd(3) by simp
    have z: "a - n = 0"
      using False by simp
    have "sp ?vm1 \<le> sp vm + d"
      unfolding sp1 by arith
    then have room1: "sp ?vm1 < length (stack ?vm1)"
      using room by (simp add: length_stack_pushAll d_def)
    have tc: "tupClass (pushAll w vs) = tupClass w" for w vs
      by (induction vs arbitrary: w) (simp_all add: push_def)
    define vm' where "vm' =
       ?vm1\<lparr>stack := (stack ?vm1)[sp ?vm1 := OBJ_VAL t],
          sp := sp ?vm1 + 1,
          heap := heap vm @ [Obj (tupClass vm) (OBJ_TUPLE [])]\<rparr>"
    have "packVarargs ?vm1 0 =
       ?vm1\<lparr>stack := (stack ?vm1)[sp ?vm1 - 0 := OBJ_VAL (Suc (length (heap ?vm1)))],
          sp := sp ?vm1 - 0 + 1,
          heap := heap ?vm1 @ [Obj (tupClass ?vm1)
             (OBJ_TUPLE (take 0 (drop (sp ?vm1 - 0) (stack ?vm1))))]\<rparr>"
      using room1 by (intro packVarargs_tuple) simp_all
    then have "packVarargs ?vm1 0 = vm'"
      by (simp add: vm'_def t_def heap_pushAll tc)
    then have eq: "adjustArguments vm c argc = Done vm'"
      using c5 [OF h] ngt by simp
    have "sp ?vm1 + 1 = sp vm + n + 1 - a"
      using False h dn unfolding sp1 by arith
    then have 1: "sp vm' = sp vm + n + 1 - a"
      by (simp add: vm'_def)
    have 2: "peek vm' = OBJ_VAL t"
      using room1 by (simp add: vm'_def peek_def)
    have 3: "deref (heap vm) t = None"
      by (simp add: t_def deref_fresh)
    have 4: "deref (heap vm') t =
             Some (Obj (tupClass vm)
                     (OBJ_TUPLE (take (a - n) (drop (sp vm - (a - n)) (stack vm)))))"
      by (simp add: vm'_def t_def deref_allocate_new z)
    have 5: "stack vm' ! (sp vm + (j - (a - (n - d)))) = defaults c ! j"
      if "a - (n - d) \<le> j" "j < d" for j
    proof -
      have "sp vm + (j - (a - (n - d))) < sp ?vm1"
        using that unfolding sp1 by arith
      then have "stack vm' ! (sp vm + (j - (a - (n - d))))
          = stack ?vm1 ! (sp vm + (j - (a - (n - d))))"
        by (simp add: vm'_def)
      then show ?thesis
        using nth1 [OF that] by simp
    qed
    from eq 1 2 3 4 5 show ?thesis
      by blast
  qed
  note r1 = c1 [unfolded err] and r2 = c2 [unfolded err] and r3 = c3 [unfolded err]
  from r1 r2 r3 r4 r5 show ?thesis
    by blast
qed

theorem adjustArguments_cases_witness:
  "adjustArguments vm_call fn_exact 3 =
     Raised (JsrRaise ''TypeException''
               ''Function `%s.%s` takes %s %d arguments, %d supplied.''
               [S ''__main__'', S ''f'', S ''exactly'', D 2, D 3]) vm_call \<and>
   adjustArguments vm_call fn_defaults 3 =
     Done (vm_call\<lparr>stack := [OBJ_VAL 9, NUM_VAL 10, NUM_VAL 20, NUM_VAL 30,
                                NUM_VAL 8, NULL_VAL, NULL_VAL, NULL_VAL], sp := 5\<rparr>) \<and>
   (\<exists>vm'. adjustArguments vm_call fn_varargs 3 = Done vm' \<and> sp vm' = 3 \<and>
       peek vm' = OBJ_VAL 3 \<and>
       deref (heap vm') 3 = Some (Obj 1 (OBJ_TUPLE [NUM_VAL 20, NUM_VAL 30])))"
proof -
  have m: "mod_name vm_call 2 = Some ''__main__''"
    by (simp add: mod_name_def vm_call_def deref_def)
  have 1: "adjustArguments vm_call fn_exact 3 =
     Raised (JsrRaise ''TypeException''
               ''Function `%s.%s` takes %s %d arguments, %d supplied.''
               [S ''__main__'', S ''f'', S ''exactly'', D 2, D 3]) vm_call"
    using adjustArguments_cases [of fn_exact vm_call "''__main__''" 3] m
    by (simp add: fn_exact_def vm_call_def)
  have 2: "adjustArguments vm_call fn_defaults 3 =
     Done (vm_call\<lparr>stack := [OBJ_VAL 9, NUM_VAL 10, NUM_VAL 20, NUM_VAL 30,
                                NUM_VAL 8, NULL_VAL, NULL_VAL, NULL_VAL], sp := 5\<rparr>)"
    using adjustArguments_cases [of fn_defaults vm_call "''__main__''" 3] m
    by (simp add: fn_defaults_def vm_call_def push_def)
  have 3: "\<exists>vm'. adjustArguments vm_call fn_varargs 3 = Done vm' \<and> sp vm' = 3 \<and>
       peek vm' = OBJ_VAL 3 \<and>
       deref (heap vm') 3 = Some (Obj 1 (OBJ_TUPLE [NUM_VAL 20, NUM_VAL 30]))"
  proof -
    have "\<exists>vm'. adjustArguments vm_call fn_varargs 3 = Done vm' \<and> sp vm' = 3 \<and>
       peek vm' = OBJ_VAL (Suc (length (heap vm_call))) \<and>
       deref (heap vm') (Suc (length (heap vm_call)))
         = Some (Obj 1 (OBJ_TUPLE [NUM_VAL 20, NUM_VAL 30]))"
      using adjustArguments_cases [of fn_varargs vm_call "''__main__''" 3] m
      by (auto simp: fn_varargs_def vm_call_def)
    moreover have "Suc (length (heap vm_call)) = 3"
      by (simp add: vm_call_def)
    ultimately show ?thesis
      by simp
  qed
  from 1 2 3 show ?thesis
    by blast
qed

subsection \<open>Invocation by name\<close>

text \<open>
  C3, as the code has it. On an instance the field table is asked first, and a field of
  the invoked name is called whatever the class's methods are. On a module the method
  table of the class Module is asked first: a method of that name is called even when
  the module has a global of the same name; the globals are used only when the class
  Module has no such method, and NameException is raised when neither exists.
\<close>

theorem invokeValue_lookup_order:
  assumes "peekn vm (unat argc) = OBJ_VAL r"
  shows
    "(deref (heap vm) r = Some (Obj cls (OBJ_INST flds)) \<and> hashTableGet flds name = Some f \<longrightarrow>
        invokeValue vm name argc = Call vm f argc) \<and>
     (deref (heap vm) r = Some (Obj cls (OBJ_INST flds)) \<and> hashTableGet flds name = None \<longrightarrow>
        invokeValue vm name argc = invokeMethod vm cls name argc) \<and>
     (deref (heap vm) r = Some (Obj cls (OBJ_MODULE mname globals)) \<and>
      cls_methods vm (modClass vm) = Some methods \<longrightarrow>
        (hashTableGet methods name = Some m \<longrightarrow> invokeValue vm name argc = Call vm m argc) \<and>
        (hashTableGet methods name = None \<and> hashTableGet globals name = Some g \<longrightarrow>
           invokeValue vm name argc = Call vm g argc) \<and>
        (hashTableGet methods name = None \<and> hashTableGet globals name = None \<longrightarrow>
           invokeValue vm name argc =
             Raised (JsrRaise ''NameException'' ''Name `%s` is not defined in module %s.''
                       [S name, S mname]) vm))"
  using assms by (simp add: invokeValue_def)

theorem invokeValue_lookup_order_witness:
  "invokeValue (vm_module\<lparr>sp := 2\<rparr>) ''run'' 0 = Call (vm_module\<lparr>sp := 2\<rparr>) (OBJ_VAL 5) 0 \<and>
   invokeValue vm_module ''f'' 0 = Call vm_module (OBJ_VAL 4) 0 \<and>
   invokeValue vm_module ''g'' 0 = Call vm_module (OBJ_VAL 6) 0 \<and>
   invokeValue vm_module ''h'' 0 =
     Raised (JsrRaise ''NameException'' ''Name `%s` is not defined in module %s.''
               [S ''h'', S ''m'']) vm_module"
proof -
  let ?gl = "[(''f'', OBJ_VAL 5), (''g'', OBJ_VAL 6)]"
  let ?ms = "[(''f'', OBJ_VAL 4)]"
  let ?fl = "[(''run'', OBJ_VAL 5)]"
  have p: "peekn vm_module (unat (0 :: 8 word)) = OBJ_VAL 3"
    by (simp add: peekn_def vm_module_def)
  have q: "peekn (vm_module\<lparr>sp := 2\<rparr>) (unat (0 :: 8 word)) = OBJ_VAL 8"
    by (simp add: peekn_def vm_module_def)
  have d: "deref (heap vm_module) 3 = Some (Obj 2 (OBJ_MODULE ''m'' ?gl))"
    "deref (heap vm_module) 8 = Some (Obj 7 (OBJ_INST ?fl))"
    by (simp_all add: deref_def vm_module_def)
  have c: "cls_methods vm_module (modClass vm_module) = Some ?ms"
    by (simp add: cls_methods_def deref_def vm_module_def)
  have "invokeValue (vm_module\<lparr>sp := 2\<rparr>) ''run'' 0 = Call (vm_module\<lparr>sp := 2\<rparr>) (OBJ_VAL 5) 0"
    using invokeValue_lookup_order [OF q, where cls = 7 and flds = ?fl and name = "''run''"
            and f = "OBJ_VAL 5"]
    by (simp add: d hashTableGet_def)
  moreover have "invokeValue vm_module ''f'' 0 = Call vm_module (OBJ_VAL 4) 0"
    using invokeValue_lookup_order [OF p, where cls = 2 and mname = "''m''" and globals = ?gl
            and methods = ?ms and name = "''f''" and m = "OBJ_VAL 4"]
    by (simp add: d c hashTableGet_def)
  moreover have "invokeValue vm_module ''g'' 0 = Call vm_module (OBJ_VAL 6) 0"
    using invokeValue_lookup_order [OF p, where cls = 2 and mname = "''m''" and globals = ?gl
            and methods = ?ms and name = "''g''" and g = "OBJ_VAL 6"]
    by (simp add: d c hashTableGet_def)
  moreover have "invokeValue vm_module ''h'' 0 =
     Raised (JsrRaise ''NameException'' ''Name `%s` is not defined in module %s.''
               [S ''h'', S ''m'']) vm_module"
    using invokeValue_lookup_order [OF p, where cls = 2 and mname = "''m''" and globals = ?gl
            and methods = ?ms and name = "''h''"]
    by (simp add: d c hashTableGet_def)
  ultimately show ?thesis
    by blast
qed

text \<open>
  C3, as the spec states it, fails: the module \<open>m\<close> has a global \<open>f\<close> (object 5), and
  yet invoking \<open>f\<close> on it calls the method \<open>f\<close> of the class Module (object 4).
\<close>

theorem invoke_module_globals_first_counterexample:
  "deref (heap vm_module) 3 =
      Some (Obj 2 (OBJ_MODULE ''m'' [(''f'', OBJ_VAL 5), (''g'', OBJ_VAL 6)])) \<and>
   hashTableGet [(''f'', OBJ_VAL 5), (''g'', OBJ_VAL 6)] ''f'' = Some (OBJ_VAL 5) \<and>
   invokeValue vm_module ''f'' 0 = Call vm_module (OBJ_VAL 4) 0 \<and>
   invokeValue vm_module ''f'' 0 \<noteq> Call vm_module (OBJ_VAL 5) 0"
  by (simp add: invokeValue_def peekn_def vm_module_def deref_def cls_methods_def
        hashTableGet_def native_obj_def)

subsection \<open>Binary operator overloads\<close>

lemma getClass_swap_callee_arg [simp]: "cls_methods (swap_callee_arg vm) c = cls_methods vm c"
  by (simp add: swap_callee_arg_def cls_methods_def)

lemma cls_name_swap_callee_arg [simp]: "cls_name (swap_callee_arg vm) c = cls_name vm c"
  by (simp add: swap_callee_arg_def cls_name_def)









subsection \<open>Unpacking\<close>

text \<open>
  C5, as the code has it. \<open>OP_UNPACK n\<close> on a tuple or a list of \<open>size\<close> elements
  raises TypeException "Too little values to unpack." exactly when there are more
  targets than elements (\<open>n > size\<close>). With \<open>n \<le> size\<close> it succeeds: the sequence is
  popped and its first \<open>n\<close> elements are pushed in order, so unpacking into exactly as
  many targets as elements succeeds positionally, and unpacking into fewer targets
  succeeds too and drops the elements that are left.
\<close>

theorem unpack_raises_only_when_too_few_values:
  assumes "0 < sp vm"
    and "peek vm = OBJ_VAL ob"
    and "deref (heap vm) ob = Some (Obj c body)"
    and "body = OBJ_TUPLE arr \<or> body = OBJ_LIST arr"
  shows "(length arr < unat n \<longrightarrow>
            OP_UNPACK vm n =
              Raised (JsrRaise ''TypeException'' ''Too little values to unpack.'' [])
                     (vm\<lparr>sp := sp vm - 1\<rparr>)) \<and>
         (unat n \<le> length arr \<longrightarrow>
            OP_UNPACK vm n = Done (pushAll (vm\<lparr>sp := sp vm - 1\<rparr>) (take (unat n) arr))) \<and>
         (unat n \<le> length arr \<and> sp vm - 1 + unat n \<le> length (stack vm) \<longrightarrow>
            sp (pushAll (vm\<lparr>sp := sp vm - 1\<rparr>) (take (unat n) arr)) = sp vm - 1 + unat n \<and>
            (\<forall>i < unat n.
               stack (pushAll (vm\<lparr>sp := sp vm - 1\<rparr>) (take (unat n) arr)) ! (sp vm - 1 + i)
                 = arr ! i))"
proof -
  let ?vm = "vm\<lparr>sp := sp vm - 1\<rparr>"
  have tl: "IS_LIST vm (peek vm) \<or> IS_TUPLE vm (peek vm)"
    using assms by (auto simp: IS_LIST_def IS_TUPLE_def)
  have p: "pop vm = (OBJ_VAL ob, ?vm)"
    using assms(2) by (simp add: pop_def peek_def)
  have u: "OP_UNPACK vm n = unpackObject ?vm ob n"
    using tl p by (auto simp: OP_UNPACK_def)
  have raise: "OP_UNPACK vm n =
      Raised (JsrRaise ''TypeException'' ''Too little values to unpack.'' []) ?vm"
    if "length arr < unat n"
    using assms(3,4) that by (auto simp: u unpackObject_def)
  have ok: "OP_UNPACK vm n = Done (pushAll ?vm (take (unat n) arr))"
    if "unat n \<le> length arr"
    using assms(3,4) that by (auto simp: u unpackObject_def)
  have pos: "sp (pushAll ?vm (take (unat n) arr)) = sp vm - 1 + unat n \<and>
        (\<forall>i < unat n. stack (pushAll ?vm (take (unat n) arr)) ! (sp vm - 1 + i) = arr ! i)"
    if le: "unat n \<le> length arr" and room: "sp vm - 1 + unat n \<le> length (stack vm)"
  proof -
    have len: "length (take (unat n) arr) = unat n"
      using le by simp
    have "stack (pushAll ?vm (take (unat n) arr)) ! (sp ?vm + i) = take (unat n) arr ! i"
      if "i < unat n" for i
      using room that len by (intro stack_pushAll_nth) simp_all
    then show ?thesis
      using len by (simp add: sp_pushAll)
  qed
  from raise ok pos show ?thesis
    by blast
qed

lemma vm_unpack_facts:
  "0 < sp vm_unpack"
  "peek vm_unpack = OBJ_VAL 2"
  "deref (heap vm_unpack) 2 = Some (Obj 1 (OBJ_TUPLE [NUM_VAL 1, NUM_VAL 2, NUM_VAL 3]))"
  by (simp_all add: vm_unpack_def peek_def deref_def)

theorem unpack_raises_only_when_too_few_values_witness:
  "OP_UNPACK vm_unpack 3 =
     Done (vm_unpack\<lparr>stack := [NUM_VAL 1, NUM_VAL 2, NUM_VAL 3, NULL_VAL], sp := 3\<rparr>) \<and>
   OP_UNPACK vm_unpack 4 =
     Raised (JsrRaise ''TypeException'' ''Too little values to unpack.'' [])
            (vm_unpack\<lparr>sp := 0\<rparr>)"
  using unpack_raises_only_when_too_few_values
          [OF vm_unpack_facts, where arr = "[NUM_VAL 1, NUM_VAL 2, NUM_VAL 3]" and n = 3]
        unpack_raises_only_when_too_few_values
          [OF vm_unpack_facts, where arr = "[NUM_VAL 1, NUM_VAL 2, NUM_VAL 3]" and n = 4]
  by (simp add: vm_unpack_def push_def)

text \<open>
  C5, as the spec states it, fails: \<open>var a, b = (1, 2, 3)\<close> reaches \<open>OP_UNPACK 2\<close> with
  the 3-tuple on top of the stack, and the code raises nothing: it pushes 1 and 2.
\<close>

theorem unpack_fewer_targets_counterexample:
  "OP_UNPACK vm_unpack 2 =
     Done (vm_unpack\<lparr>stack := [NUM_VAL 1, NUM_VAL 2, NULL_VAL, NULL_VAL], sp := 2\<rparr>)"
  by (simp add: OP_UNPACK_def unpackObject_def IS_LIST_def IS_TUPLE_def vm_unpack_def
        peek_def pop_def deref_def push_def)

subsection \<open>Assignment to a global\<close>

lemma hashTableGet_hashTablePut:
  "hashTableGet (snd (hashTablePut t key val)) key' = (if key' = key then Some val else hashTableGet t key')"
  by (simp add: hashTableGet_def hashTablePut_def update_conv')

lemma fst_hashTablePut: "fst (hashTablePut t key val) = (hashTableGet t key = None)"
  by (simp add: hashTableGet_def hashTablePut_def)

text \<open>
  C10. When \<open>OP_SET_GLOBAL\<close> targets a name that the current module does not define,
  it raises NameException, and in the state in which the exception is raised the
  module's globals bind the name to the assigned value (the top of the stack), every
  other name being bound as before: the store is not undone.
\<close>

theorem set_global_undefined_stores_then_raises:
  assumes "deref (heap vm) (module vm) = Some (Obj c (OBJ_MODULE mname globals))"
    and "hashTableGet globals name = None"
  shows "\<exists>vm' globals'.
           OP_SET_GLOBAL vm name =
             Raised (JsrRaise ''NameException'' ''Name `%s` is not defined.'' [S name]) vm' \<and>
           mod_globals vm' (module vm) = Some globals' \<and>
           hashTableGet globals' name = Some (peek vm) \<and>
           (\<forall>key. key \<noteq> name \<longrightarrow> hashTableGet globals' key = hashTableGet globals key) \<and>
           stack vm' = stack vm \<and> sp vm' = sp vm \<and> module vm' = module vm"
proof -
  obtain new globals' where p: "hashTablePut globals name (peek vm) = (new, globals')"
    by (cases "hashTablePut globals name (peek vm)")
  let ?vm' = "vm\<lparr>heap := heap_store (heap vm) (module vm) (Obj c (OBJ_MODULE mname globals'))\<rparr>"
  have new: "new"
    using fst_hashTablePut [of globals name "peek vm"] assms(2) p by simp
  have g: "hashTableGet globals' key = (if key = name then Some (peek vm) else hashTableGet globals key)"
    for key
    using hashTableGet_hashTablePut [of globals name "peek vm" key] p by simp
  have "OP_SET_GLOBAL vm name =
      Raised (JsrRaise ''NameException'' ''Name `%s` is not defined.'' [S name]) ?vm'"
    using assms(1) p new by (simp add: OP_SET_GLOBAL_def)
  moreover have "mod_globals ?vm' (module vm) = Some globals'"
    using assms(1) by (simp add: mod_globals_def deref_heap_store)
  ultimately show ?thesis
    using g by (intro exI [of _ ?vm'] exI [of _ globals']) simp
qed

theorem set_global_undefined_stores_then_raises_witness:
  "\<exists>vm' globals'.
     OP_SET_GLOBAL vm_global ''y'' =
       Raised (JsrRaise ''NameException'' ''Name `%s` is not defined.'' [S ''y'']) vm' \<and>
     mod_globals vm' 1 = Some globals' \<and>
     hashTableGet globals' ''y'' = Some (NUM_VAL 5) \<and>
     hashTableGet globals' ''x'' = Some (NUM_VAL 1)"
proof -
  have d: "deref (heap vm_global) (module vm_global) =
      Some (Obj 0 (OBJ_MODULE ''__main__'' [(''x'', NUM_VAL 1)]))"
    by (simp add: vm_global_def deref_def)
  have n: "hashTableGet [(''x'', NUM_VAL 1)] ''y'' = None"
    by (simp add: hashTableGet_def)
  have x: "hashTableGet [(''x'', NUM_VAL 1)] ''x'' = Some (NUM_VAL 1)"
    by (simp add: hashTableGet_def)
  have m: "module vm_global = 1" "peek vm_global = NUM_VAL 5"
    by (simp_all add: vm_global_def peek_def)
  obtain vm' globals' where
    "OP_SET_GLOBAL vm_global ''y'' =
       Raised (JsrRaise ''NameException'' ''Name `%s` is not defined.'' [S ''y'']) vm'"
    "mod_globals vm' 1 = Some globals'"
    "hashTableGet globals' ''y'' = Some (NUM_VAL 5)"
    "\<forall>key. key \<noteq> ''y'' \<longrightarrow> hashTableGet globals' key = hashTableGet [(''x'', NUM_VAL 1)] key"
    using set_global_undefined_stores_then_raises [OF d n] unfolding m by blast
  moreover from this(4) have "hashTableGet globals' ''x'' = Some (NUM_VAL 1)"
    using x by simp
  ultimately show ?thesis
    by blast
qed

subsection \<open>Methods and super\<close>

lemma deref_heap_store_other:
  "r \<noteq> r' \<Longrightarrow> 0 < r \<Longrightarrow> deref (heap_store h r ob) r' = deref h r'"
  by (auto simp: deref_def heap_store_def)

text \<open>
  C6. \<open>OP_SUPER\<close> and \<open>OP_SUPER_BIND\<close> look the meth up in the meth table of the
  class that slot 0 of the executing function's constant pool holds, whatever the
  receiver on the stack and its class are; and \<open>OP_DEF_METHOD\<close> writes into that slot
  the superclass of the class the meth is defined in, before it enters the meth
  into that class's table.
\<close>

theorem super_dispatches_on_const_slot_0:
  "(frames vm = f # fs \<and>
    deref (heap vm) (fn f) = Some (Obj kc (OBJ_CLOSURE fr ups)) \<and>
    deref (heap vm) fr = Some (Obj kf (OBJ_FUNCTION c (OBJ_VAL supc # pool))) \<and>
    deref (heap vm) supc = Some (Obj ks (OBJ_CLASS sname ssup smethods)) \<longrightarrow>
      (hashTableGet smethods name = Some meth \<longrightarrow>
         OP_SUPER vm argc name = Call vm meth argc) \<and>
      (hashTableGet smethods name = None \<longrightarrow>
         OP_SUPER vm argc name =
           Raised (JsrRaise ''MethodException'' ''Method %s.%s() doesn't exists''
                     [S sname, S name]) vm \<and>
         OP_SUPER_BIND vm name =
           Raised (JsrRaise ''MethodException'' ''Method %s.%s() doesn't exists''
                     [S sname, S name]) vm) \<and>
      (hashTableGet smethods name = Some (OBJ_VAL m) \<and> 0 < sp vm \<and> sp vm \<le> length (stack vm) \<longrightarrow>
         (\<exists>vm'. OP_SUPER_BIND vm name = Done vm' \<and> sp vm' = sp vm \<and>
            peek vm' = OBJ_VAL (Suc (length (heap vm))) \<and>
            deref (heap vm') (Suc (length (heap vm))) =
              Some (Obj (funClass vm) (OBJ_BOUND_METHOD (peek vm) m))))) \<and>
   (peek2 vm = OBJ_VAL cls \<and> peek vm = OBJ_VAL cl \<and>
    deref (heap vm) cls = Some (Obj k (OBJ_CLASS cname superCls methods)) \<and>
    deref (heap vm) cl = Some (Obj kc (OBJ_CLOSURE fr ups)) \<and>
    deref (heap vm) fr = Some (Obj kf (OBJ_FUNCTION c (oldv # pool))) \<longrightarrow>
      (\<exists>vm' methods'. OP_DEF_METHOD vm name = Done vm' \<and> sp vm' = sp vm - 1 \<and>
         fn_consts vm' fr = Some (OBJ_VAL superCls # pool) \<and>
         deref (heap vm') cls = Some (Obj k (OBJ_CLASS cname superCls methods')) \<and>
         hashTableGet methods' name = Some (OBJ_VAL cl)))"
proof (intro conjI impI; (elim conjE)?)
  assume fr: "frames vm = f # fs"
    "deref (heap vm) (fn f) = Some (Obj kc (OBJ_CLOSURE fr ups))"
    "deref (heap vm) fr = Some (Obj kf (OBJ_FUNCTION c (OBJ_VAL supc # pool)))"
    and supc: "deref (heap vm) supc = Some (Obj ks (OBJ_CLASS sname ssup smethods))"
  have sc: "super_const vm = Some supc"
    using fr by (simp add: super_const_def frame_fn_def fn_consts_def)
  {
    assume "hashTableGet smethods name = Some meth"
    then show "OP_SUPER vm argc name = Call vm meth argc"
      using sc supc by (simp add: OP_SUPER_def invokeMethod_def)
  }
  {
    assume "hashTableGet smethods name = None"
    then show "OP_SUPER vm argc name =
           Raised (JsrRaise ''MethodException'' ''Method %s.%s() doesn't exists''
                     [S sname, S name]) vm"
      and "OP_SUPER_BIND vm name =
           Raised (JsrRaise ''MethodException'' ''Method %s.%s() doesn't exists''
                     [S sname, S name]) vm"
      using sc supc
      by (simp_all add: OP_SUPER_def invokeMethod_def OP_SUPER_BIND_def bindMethod_def
            cls_methods_def cls_name_def)
  }
  {
    assume m: "hashTableGet smethods name = Some (OBJ_VAL m)"
      and s: "0 < sp vm" "sp vm \<le> length (stack vm)"
    let ?bm = "Suc (length (heap vm))"
    let ?vm' = "vm\<lparr>heap := heap vm @ [Obj (funClass vm) (OBJ_BOUND_METHOD (peek vm) m)],
                    stack := (stack vm)[sp vm - 1 := OBJ_VAL ?bm]\<rparr>"
    have "bindMethod vm supc name = Some (True, ?vm')"
      using supc m s
      by (simp add: bindMethod_def cls_methods_def newBoundMethod_def allocate_def pop_def
            push_def)
    then have "OP_SUPER_BIND vm name = Done ?vm'"
      using sc by (simp add: OP_SUPER_BIND_def)
    moreover have "peek ?vm' = OBJ_VAL ?bm"
      using s by (simp add: peek_def)
    moreover have "deref (heap ?vm') ?bm = Some (Obj (funClass vm) (OBJ_BOUND_METHOD (peek vm) m))"
      by (simp add: deref_allocate_new)
    ultimately show "\<exists>vm'. OP_SUPER_BIND vm name = Done vm' \<and> sp vm' = sp vm \<and>
            peek vm' = OBJ_VAL ?bm \<and>
            deref (heap vm') ?bm = Some (Obj (funClass vm) (OBJ_BOUND_METHOD (peek vm) m))"
      by (intro exI [of _ ?vm']) simp
  }
next
  assume st: "peek2 vm = OBJ_VAL cls" "peek vm = OBJ_VAL cl"
    and d: "deref (heap vm) cls = Some (Obj k (OBJ_CLASS cname superCls methods))"
      "deref (heap vm) cl = Some (Obj kc (OBJ_CLOSURE fr ups))"
      "deref (heap vm) fr = Some (Obj kf (OBJ_FUNCTION c (oldv # pool)))"
  let ?h = "heap_store (heap vm) fr (Obj kf (OBJ_FUNCTION c (OBJ_VAL superCls # pool)))"
  let ?ms = "snd (hashTablePut methods name (OBJ_VAL cl))"
  let ?h' = "heap_store ?h cls (Obj k (OBJ_CLASS cname superCls ?ms))"
  let ?vm' = "vm\<lparr>sp := sp vm - 1, heap := ?h'\<rparr>"
  have ne: "cls \<noteq> fr" "0 < cls" "0 < fr"
    using d by (auto simp: deref_def split: if_splits)
  have "pop (vm\<lparr>heap := ?h\<rparr>) = (OBJ_VAL cl, vm\<lparr>heap := ?h, sp := sp vm - 1\<rparr>)"
    using st(2) by (simp add: pop_def peek_def)
  then have "OP_DEF_METHOD vm name = Done ?vm'"
    using st d by (simp add: OP_DEF_METHOD_def)
  moreover have "deref ?h cls = Some (Obj k (OBJ_CLASS cname superCls methods))"
    using ne d(1) by (simp add: deref_heap_store_other)
  then have "deref ?h' cls = Some (Obj k (OBJ_CLASS cname superCls ?ms))"
    by (rule deref_heap_store)
  moreover have "deref ?h' fr = Some (Obj kf (OBJ_FUNCTION c (OBJ_VAL superCls # pool)))"
    using ne d(3) by (simp add: deref_heap_store_other deref_heap_store)
  then have "fn_consts ?vm' fr = Some (OBJ_VAL superCls # pool)"
    by (simp add: fn_consts_def)
  moreover have "hashTableGet ?ms name = Some (OBJ_VAL cl)"
    by (simp add: hashTableGet_hashTablePut)
  ultimately show "\<exists>vm' methods'. OP_DEF_METHOD vm name = Done vm' \<and> sp vm' = sp vm - 1 \<and>
         fn_consts vm' fr = Some (OBJ_VAL superCls # pool) \<and>
         deref (heap vm') cls = Some (Obj k (OBJ_CLASS cname superCls methods')) \<and>
         hashTableGet methods' name = Some (OBJ_VAL cl)"
    by (intro exI [of _ ?vm'] exI [of _ ?ms]) simp
qed

lemma heap_classes_deref:
  "deref (heap_classes oldv mb) 1 = Some (Obj 0 (OBJ_CLASS ''A'' 0 [(''m'', OBJ_VAL 6)]))"
  "deref (heap_classes oldv mb) (Suc 0) = Some (Obj 0 (OBJ_CLASS ''A'' 0 [(''m'', OBJ_VAL 6)]))"
  "deref (heap_classes oldv mb) 2 = Some (Obj 0 (OBJ_CLASS ''B'' 1 mb))"
  "deref (heap_classes oldv mb) 3 = Some (Obj 0 (OBJ_CLASS ''C'' 2 [(''m'', OBJ_VAL 7)]))"
  "deref (heap_classes oldv mb) 4 =
     Some (Obj 0 (OBJ_FUNCTION \<lparr>vararg = False, argsCount = 0, defaultc = 0, defaults = [],
                                 c_module = 0, c_name = ''g''\<rparr> [oldv, NUM_VAL 2]))"
  "deref (heap_classes oldv mb) 5 = Some (Obj 0 (OBJ_CLOSURE 4 []))"
  "deref (heap_classes oldv mb) 8 = Some (Obj 3 (OBJ_INST []))"
  by (simp_all add: heap_classes_def deref_def)

text \<open>
  The receiver of \<open>super.m()\<close> is an instance of \<open>C\<close>, whose parent \<open>B\<close> defines \<open>m\<close> as
  object 7; the call goes to \<open>A\<close>'s \<open>m\<close>, object 6, since \<open>OP_DEF_METHOD\<close> stored \<open>A\<close> in
  slot 0 when \<open>g\<close> was defined in \<open>B\<close>.
\<close>

theorem super_dispatches_on_const_slot_0_witness:
  "peekn vm_super 0 = OBJ_VAL 8 \<and> getClass vm_super (OBJ_VAL 8) = Some 3 \<and>
   OP_SUPER vm_super 0 ''m'' = Call vm_super (OBJ_VAL 6) 0 \<and>
   (\<exists>vm' methods'. OP_DEF_METHOD vm_def_method ''g'' = Done vm' \<and> sp vm' = 1 \<and>
      fn_consts vm' 4 = Some [OBJ_VAL 1, NUM_VAL 2] \<and>
      deref (heap vm') 2 = Some (Obj 0 (OBJ_CLASS ''B'' 1 methods')) \<and>
      hashTableGet methods' ''g'' = Some (OBJ_VAL 5))"
proof -
  have r: "peekn vm_super 0 = OBJ_VAL 8" "getClass vm_super (OBJ_VAL 8) = Some 3"
    by (simp_all add: vm_super_def peekn_def heap_classes_deref)
  have s: "frames vm_super = [\<lparr>ip = 3, frameStack = 0, fn = 5, handlers = []\<rparr>]"
    "heap vm_super = heap_classes (OBJ_VAL 1) [(''m'', OBJ_VAL 7), (''g'', OBJ_VAL 5)]"
    by (simp_all add: vm_super_def)
  have "OP_SUPER vm_super 0 ''m'' = Call vm_super (OBJ_VAL 6) 0"
    using super_dispatches_on_const_slot_0
      [where vm = vm_super and f = "\<lparr>ip = 3, frameStack = 0, fn = 5, handlers = []\<rparr>" and fs = "[]"
         and kc = 0 and fr = 4 and ups = "[]" and kf = 0 and supc = 1 and pool = "[NUM_VAL 2]"
         and c = "\<lparr>vararg = False, argsCount = 0, defaultc = 0, defaults = [],
                   c_module = 0, c_name = ''g''\<rparr>"
         and ks = 0 and sname = "''A''" and ssup = 0 and smethods = "[(''m'', OBJ_VAL 6)]"
         and name = "''m''" and meth = "OBJ_VAL 6" and argc = 0]
    by (simp add: s heap_classes_deref hashTableGet_def)
  moreover have d: "peek2 vm_def_method = OBJ_VAL 2" "peek vm_def_method = OBJ_VAL 5"
    "heap vm_def_method = heap_classes NULL_VAL [(''m'', OBJ_VAL 7)]" "sp vm_def_method = 2"
    by (simp_all add: vm_def_method_def peek_def peek2_def)
  have "\<exists>vm' methods'. OP_DEF_METHOD vm_def_method ''g'' = Done vm' \<and> sp vm' = 1 \<and>
      fn_consts vm' 4 = Some [OBJ_VAL 1, NUM_VAL 2] \<and>
      deref (heap vm') 2 = Some (Obj 0 (OBJ_CLASS ''B'' 1 methods')) \<and>
      hashTableGet methods' ''g'' = Some (OBJ_VAL 5)"
    using super_dispatches_on_const_slot_0
      [where vm = vm_def_method and cls = 2 and cl = 5 and k = 0 and cname = "''B''"
         and superCls = 1 and methods = "[(''m'', OBJ_VAL 7)]"
         and kc = 0 and fr = 4 and ups = "[]" and kf = 0 and oldv = NULL_VAL
         and pool = "[NUM_VAL 2]"
         and c = "\<lparr>vararg = False, argsCount = 0, defaultc = 0, defaults = [],
                   c_module = 0, c_name = ''g''\<rparr>"
         and name = "''g''"]
    by (simp add: d heap_classes_deref)
  ultimately show ?thesis
    using r by blast
qed

subsection \<open>Upvalues\<close>

lemma deref_append: "deref h r = Some ob \<Longrightarrow> deref (h @ [x]) r = Some ob"
  by (auto simp: deref_def nth_append split: if_splits)

lemma upvalue_addr_append: "upvalue_addr h u = Some a \<Longrightarrow> upvalue_addr (h @ [x]) u = Some a"
  by (auto simp: upvalue_addr_def deref_append split: option.splits Obj.splits ObjBody.splits)

lemma open_slots_Cons_Some:
  "open_slots h (u # us) = Some slots \<longleftrightarrow>
     (\<exists>a rest. upvalue_addr h u = Some (StackSlot a) \<and> open_slots h us = Some rest \<and> slots = a # rest)"
  by (auto split: option.splits UpAddr.splits)

lemma open_slots_append_heap:
  "open_slots h us = Some slots \<Longrightarrow> open_slots (h @ [x]) us = Some slots"
proof (induction us arbitrary: slots)
  case Nil
  then show ?case by simp
next
  case (Cons u us)
  from Cons.prems [unfolded open_slots_Cons_Some]
  obtain a rest where "upvalue_addr h u = Some (StackSlot a)"
    "open_slots h us = Some rest" "slots = a # rest"
    by blast
  then show ?case
    using Cons.IH [of rest] by (simp add: upvalue_addr_append)
qed

lemma open_slots_app:
  "open_slots h p = Some ap \<Longrightarrow> open_slots h r = Some ar \<Longrightarrow>
   open_slots h (p @ r) = Some (ap @ ar)"
proof (induction p arbitrary: ap)
  case Nil
  then show ?case by simp
next
  case (Cons u p)
  from Cons.prems(1) [unfolded open_slots_Cons_Some]
  obtain a rest where "upvalue_addr h u = Some (StackSlot a)"
    "open_slots h p = Some rest" "ap = a # rest"
    by blast
  then show ?case
    using Cons.IH [of rest] Cons.prems(2) by simp
qed

lemma capture_walk_split:
  "open_slots h us = Some slots \<Longrightarrow>
   \<exists>before rest ap ar. capture_walk h us addr = Some (before, rest) \<and> us = before @ rest \<and>
      open_slots h before = Some ap \<and> open_slots h rest = Some ar \<and> slots = ap @ ar \<and>
      (\<forall>a \<in> set ap. a > addr) \<and> (ar \<noteq> [] \<longrightarrow> hd ar \<le> addr)"
proof (induction us arbitrary: slots)
  case Nil
  then show ?case by simp
next
  case (Cons u us)
  from Cons.prems [unfolded open_slots_Cons_Some]
  obtain a tl_slots where u: "upvalue_addr h u = Some (StackSlot a)"
    and us: "open_slots h us = Some tl_slots" and sl: "slots = a # tl_slots"
    by blast
  show ?case
  proof (cases "a > addr")
    case True
    from Cons.IH [OF us] obtain before rest ap ar where
      w: "capture_walk h us addr = Some (before, rest)" "us = before @ rest"
        "open_slots h before = Some ap" "open_slots h rest = Some ar" "tl_slots = ap @ ar"
        "\<forall>a \<in> set ap. a > addr" "ar \<noteq> [] \<longrightarrow> hd ar \<le> addr"
      by blast
    have "capture_walk h (u # us) addr = Some (u # before, rest)"
      using u True w(1) by simp
    moreover have "open_slots h (u # before) = Some (a # ap)"
      using u w(3) by simp
    ultimately show ?thesis
      using w True sl
      by (intro exI [of _ "u # before"] exI [of _ rest] exI [of _ "a # ap"] exI [of _ ar]) simp
  next
    case False
    have "capture_walk h (u # us) addr = Some ([], u # us)"
      using u False by simp
    moreover have "open_slots h (u # us) = Some (a # tl_slots)"
      using u us by simp
    ultimately show ?thesis
      using False sl
      by (intro exI [of _ "[]"] exI [of _ "u # us"] exI [of _ "[]"] exI [of _ "a # tl_slots"]) simp
  qed
qed


lemma sorted_desc_tail_less:
  "sorted_wrt (>) (ap @ b # ar) \<Longrightarrow> \<forall>a \<in> set ar. a < (b::nat)"
  by (auto simp: sorted_wrt_append)

lemma open_slots_hd:
  "open_slots h (u # us) = Some (b # ar) \<Longrightarrow> upvalue_addr h u = Some (StackSlot b)"
  by (auto simp: open_slots_Cons_Some simp del: open_slots.simps)

lemma open_slots_Nil_iff: "open_slots h us = Some [] \<longleftrightarrow> us = []"
  by (cases us) (auto split: option.splits UpAddr.splits)

lemma capture_existing:
  assumes os: "open_slots (heap vm) (upvalues vm) = Some slots"
    and sorted: "sorted_wrt (>) slots" and mem: "addr \<in> set slots"
  shows "\<exists>u. captureUpvalue vm addr = Some (u, vm) \<and> u \<in> set (upvalues vm) \<and>
           upvalue_addr (heap vm) u = Some (StackSlot addr)"
proof -
  from capture_walk_split [OF os, of addr] obtain before rest ap ar where
    w: "capture_walk (heap vm) (upvalues vm) addr = Some (before, rest)"
      "upvalues vm = before @ rest"
      "open_slots (heap vm) before = Some ap" "open_slots (heap vm) rest = Some ar"
      "slots = ap @ ar" "\<forall>a \<in> set ap. a > addr" "ar \<noteq> [] \<longrightarrow> hd ar \<le> addr"
    by blast
  have "addr \<notin> set ap"
    using w(6) by auto
  then have "addr \<in> set ar"
    using mem w(5) by simp
  then obtain b ar' where ar: "ar = b # ar'"
    by (cases ar) auto
  have "\<forall>a \<in> set ar'. a < b"
    using sorted unfolding w(5) ar by (rule sorted_desc_tail_less)
  moreover have "b \<le> addr"
    using w(7) ar by simp
  ultimately have b: "b = addr"
    using \<open>addr \<in> set ar\<close> ar by auto
  obtain u rest' where rest: "rest = u # rest'"
    using w(4) ar by (cases rest) simp_all
  have ua: "upvalue_addr (heap vm) u = Some (StackSlot addr)"
    using w(4) unfolding rest ar b by (rule open_slots_hd)
  have ne: "upvalues vm \<noteq> []"
    using w(2) rest by simp
  have "captureUpvalue vm addr = Some (u, vm)"
    using ne w(1) rest ua by (simp add: captureUpvalue_def)
  moreover have "u \<in> set (upvalues vm)"
    using w(2) rest by simp
  ultimately show ?thesis
    using ua by blast
qed

lemma capture_new:
  assumes os: "open_slots (heap vm) (upvalues vm) = Some slots"
    and sorted: "sorted_wrt (>) slots" and nmem: "addr \<notin> set slots"
  shows "\<exists>before rest ap ar.
           captureUpvalue vm addr =
             Some (Suc (length (heap vm)),
                   vm\<lparr>heap := heap vm @ [Obj 0 (OBJ_UPVALUE (StackSlot addr) NULL_VAL)],
                      upvalues := before @ Suc (length (heap vm)) # rest\<rparr>) \<and>
           upvalues vm = before @ rest \<and> slots = ap @ ar \<and>
           (\<forall>a \<in> set ap. a > addr) \<and> (\<forall>a \<in> set ar. a < addr) \<and>
           open_slots (heap vm @ [Obj 0 (OBJ_UPVALUE (StackSlot addr) NULL_VAL)])
             (before @ Suc (length (heap vm)) # rest) = Some (ap @ addr # ar)"
proof -
  let ?new = "Obj 0 (OBJ_UPVALUE (StackSlot addr) NULL_VAL)"
  let ?c = "Suc (length (heap vm))"
  from capture_walk_split [OF os, of addr] obtain before rest ap ar where
    w: "capture_walk (heap vm) (upvalues vm) addr = Some (before, rest)"
      "upvalues vm = before @ rest"
      "open_slots (heap vm) before = Some ap" "open_slots (heap vm) rest = Some ar"
      "slots = ap @ ar" "\<forall>a \<in> set ap. a > addr" "ar \<noteq> [] \<longrightarrow> hd ar \<le> addr"
    by blast
  have cr: "createUpvalue vm addr before rest =
      (?c, vm\<lparr>heap := heap vm @ [?new], upvalues := before @ ?c # rest\<rparr>)"
    by (simp add: createUpvalue_def newUpvalue_def allocate_def)
  have ar_less: "\<forall>a \<in> set ar. a < addr"
  proof (cases ar)
    case Nil
    then show ?thesis by simp
  next
    case (Cons b ar')
    have "\<forall>a \<in> set ar'. a < b"
      using sorted unfolding w(5) Cons by (rule sorted_desc_tail_less)
    moreover have "b \<le> addr"
      using w(7) Cons by simp
    moreover have "b \<noteq> addr"
      using nmem w(5) Cons by auto
    ultimately show ?thesis
      using Cons by auto
  qed
  have cap: "captureUpvalue vm addr = Some (createUpvalue vm addr before rest)"
  proof (cases "upvalues vm = []")
    case True
    then have "before = []" "rest = []"
      using w(2) by simp_all
    then show ?thesis
      using True by (simp add: captureUpvalue_def)
  next
    case False
    show ?thesis
    proof (cases rest)
      case Nil
      then show ?thesis
        using False w(1) by (simp add: captureUpvalue_def)
    next
      case (Cons u rest')
      have "ar \<noteq> []"
        using w(4) open_slots_Nil_iff [of "heap vm" rest] Cons by auto
      then obtain b ar' where ar: "ar = b # ar'"
        by (cases ar) simp_all
      have "upvalue_addr (heap vm) u = Some (StackSlot b)"
        using w(4) unfolding Cons ar by (rule open_slots_hd)
      moreover have "b \<noteq> addr"
        using ar_less ar by auto
      ultimately show ?thesis
        using False w(1) Cons by (simp add: captureUpvalue_def)
    qed
  qed
  have "upvalue_addr (heap vm @ [?new]) ?c = Some (StackSlot addr)"
    by (simp add: upvalue_addr_def deref_allocate_new)
  then have "open_slots (heap vm @ [?new]) (?c # rest) = Some (addr # ar)"
    using open_slots_append_heap [OF w(4), of ?new] by simp
  then have "open_slots (heap vm @ [?new]) (before @ ?c # rest) = Some (ap @ addr # ar)"
    using open_slots_append_heap [OF w(3), of ?new] by (rule open_slots_app [rotated])
  then show ?thesis
    using cap cr w(2,5,6) ar_less
    by (intro exI [of _ before] exI [of _ rest] exI [of _ ap] exI [of _ ar]) simp
qed


lemma upvalue_addr_heap_store_other:
  "u \<noteq> x \<Longrightarrow> 0 < u \<Longrightarrow> upvalue_addr (heap_store h u ob) x = upvalue_addr h x"
  by (simp add: upvalue_addr_def deref_heap_store_other)

lemma open_slots_heap_store_notin:
  "u \<notin> set xs \<Longrightarrow> 0 < u \<Longrightarrow> open_slots (heap_store h u ob) xs = open_slots h xs"
  by (induction xs) (simp_all add: upvalue_addr_heap_store_other)

lemma open_slots_mem:
  "open_slots h xs = Some sl \<Longrightarrow> x \<in> set xs \<Longrightarrow>
   \<exists>b \<in> set sl. upvalue_addr h x = Some (StackSlot b)"
proof (induction xs arbitrary: sl)
  case Nil
  then show ?case by simp
next
  case (Cons y xs)
  from Cons.prems(1) [unfolded open_slots_Cons_Some]
  obtain a rest where y: "upvalue_addr h y = Some (StackSlot a)"
    "open_slots h xs = Some rest" "sl = a # rest"
    by blast
  show ?case
  proof (cases "x = y")
    case True
    then show ?thesis using y by simp
  next
    case False
    then have "x \<in> set xs" using Cons.prems(2) by simp
    from Cons.IH [OF y(2) this] show ?thesis using y(3) by auto
  qed
qed

lemma upvalue_addr_deref:
  "upvalue_addr h u = Some a \<Longrightarrow> \<exists>k cl. deref h u = Some (Obj k (OBJ_UPVALUE a cl))"
  by (auto simp: upvalue_addr_def split: option.splits Obj.splits ObjBody.splits)

lemma length_heap_store [simp]: "length (heap_store h u ob) = length h"
  by (simp add: heap_store_def)

lemma close_loop_spec:
  assumes "open_slots h us = Some slots" and "sorted_wrt (>) slots"
    and "list_all (\<lambda>a. a < length st) slots"
  shows "\<exists>h' closed rest cs rs.
      close_loop st h us last' = Some (h', rest) \<and> us = closed @ rest \<and>
      open_slots h closed = Some cs \<and> open_slots h rest = Some rs \<and> slots = cs @ rs \<and>
      (\<forall>a \<in> set cs. a \<ge> last') \<and> (\<forall>a \<in> set rs. a < last') \<and>
      length h' = length h \<and>
      (\<forall>u \<in> set closed. \<exists>k cl a. deref h u = Some (Obj k (OBJ_UPVALUE (StackSlot a) cl)) \<and>
           deref h' u = Some (Obj k (OBJ_UPVALUE OwnCell (st ! a)))) \<and>
      (\<forall>r. r \<notin> set closed \<longrightarrow> deref h' r = deref h r)"
  using assms
proof (induction us arbitrary: h slots)
  case Nil
  then show ?case by simp
next
  case (Cons u us)
  from Cons.prems(1) [unfolded open_slots_Cons_Some]
  obtain a sl where ua: "upvalue_addr h u = Some (StackSlot a)"
    and os: "open_slots h us = Some sl" and slots: "slots = a # sl"
    by blast
  from upvalue_addr_deref [OF ua] obtain k cl where
    d: "deref h u = Some (Obj k (OBJ_UPVALUE (StackSlot a) cl))"
    by blast
  have u0: "0 < u"
    using d by (simp add: deref_def split: if_splits)
  have sl_less: "\<forall>b \<in> set sl. b < a" and sl_sorted: "sorted_wrt (>) sl"
    and sl_bound: "list_all (\<lambda>a. a < length st) sl" and a_bound: "a < length st"
    using Cons.prems(2,3) slots by auto
  show ?case
  proof (cases "a \<ge> last'")
    case True
    let ?ob = "Obj k (OBJ_UPVALUE OwnCell (st ! a))"
    let ?h1 = "heap_store h u ?ob"
    have notin: "u \<notin> set us"
    proof
      assume "u \<in> set us"
      from open_slots_mem [OF os this] obtain b where "b \<in> set sl"
        "upvalue_addr h u = Some (StackSlot b)"
        by blast
      then show False
        using ua sl_less by auto
    qed
    have os1: "open_slots ?h1 us = Some sl"
      using os notin u0 by (simp add: open_slots_heap_store_notin)
    have step: "close_loop st h (u # us) last' = close_loop st ?h1 us last'"
      using d True a_bound by simp
    from Cons.IH [OF os1 sl_sorted sl_bound] obtain h' closed rest cs rs where
      ih: "close_loop st ?h1 us last' = Some (h', rest)" "us = closed @ rest"
        "open_slots ?h1 closed = Some cs" "open_slots ?h1 rest = Some rs" "sl = cs @ rs"
        "\<forall>a \<in> set cs. a \<ge> last'" "\<forall>a \<in> set rs. a < last'"
        "length h' = length ?h1"
        "\<forall>x \<in> set closed. \<exists>k cl a. deref ?h1 x = Some (Obj k (OBJ_UPVALUE (StackSlot a) cl)) \<and>
           deref h' x = Some (Obj k (OBJ_UPVALUE OwnCell (st ! a)))"
        "\<forall>r. r \<notin> set closed \<longrightarrow> deref h' r = deref ?h1 r"
      by blast
    have nc: "u \<notin> set closed" "u \<notin> set rest"
      using notin ih(2) by simp_all
    have 1: "open_slots h (u # closed) = Some (a # cs)"
      using ih(3) nc(1) u0 ua by (simp add: open_slots_heap_store_notin)
    have 2: "open_slots h rest = Some rs"
      using ih(4) nc(2) u0 by (simp add: open_slots_heap_store_notin)
    have 3: "\<forall>x \<in> set (u # closed).
        \<exists>k cl a. deref h x = Some (Obj k (OBJ_UPVALUE (StackSlot a) cl)) \<and>
           deref h' x = Some (Obj k (OBJ_UPVALUE OwnCell (st ! a)))"
    proof
      fix x
      assume x: "x \<in> set (u # closed)"
      show "\<exists>k cl a. deref h x = Some (Obj k (OBJ_UPVALUE (StackSlot a) cl)) \<and>
           deref h' x = Some (Obj k (OBJ_UPVALUE OwnCell (st ! a)))"
      proof (cases "x = u")
        case True
        have "deref h' u = deref ?h1 u"
          using ih(10) nc(1) by simp
        also have "\<dots> = Some ?ob"
          using d by (rule deref_heap_store)
        finally show ?thesis
          using d True by simp
      next
        case False
        then have xc: "x \<in> set closed"
          using x by simp
        have e: "deref ?h1 x = deref h x"
          using False u0 by (simp add: deref_heap_store_other)
        from ih(9) xc obtain k' cl' a' where
          "deref ?h1 x = Some (Obj k' (OBJ_UPVALUE (StackSlot a') cl'))"
          "deref h' x = Some (Obj k' (OBJ_UPVALUE OwnCell (st ! a')))"
          by blast
        then show ?thesis
          unfolding e by blast
      qed
    qed
    have 4: "\<forall>r. r \<notin> set (u # closed) \<longrightarrow> deref h' r = deref h r"
      using ih(10) u0 by (auto simp: deref_heap_store_other)
    show ?thesis
      using step ih(1,2,5,6,7,8) 1 2 3 4 True slots
      by (intro exI [of _ h'] exI [of _ "u # closed"] exI [of _ rest]
            exI [of _ "a # cs"] exI [of _ rs]) simp
  next
    case False
    have "close_loop st h (u # us) last' = Some (h, u # us)"
      using d False by simp
    moreover have "\<forall>b \<in> set slots. b < last'"
      using False sl_less slots by auto
    ultimately show ?thesis
      using Cons.prems(1)
      by (intro exI [of _ h] exI [of _ "[]"] exI [of _ "u # us"]
            exI [of _ "[]"] exI [of _ slots]) simp
  qed
qed


lemma open_slots_mem_conv:
  "open_slots h xs = Some sl \<Longrightarrow> b \<in> set sl \<Longrightarrow>
   \<exists>x \<in> set xs. upvalue_addr h x = Some (StackSlot b)"
proof (induction xs arbitrary: sl)
  case Nil
  then show ?case by simp
next
  case (Cons y xs)
  from Cons.prems(1) [unfolded open_slots_Cons_Some]
  obtain a rest where y: "upvalue_addr h y = Some (StackSlot a)"
    "open_slots h xs = Some rest" "sl = a # rest"
    by blast
  show ?case
  proof (cases "b = a")
    case True
    then show ?thesis using y(1) by simp
  next
    case False
    then have "b \<in> set rest" using Cons.prems(2) y(3) by simp
    from Cons.IH [OF y(2) this] show ?thesis by auto
  qed
qed

lemma open_slots_cong:
  "\<forall>x \<in> set xs. deref h' x = deref h x \<Longrightarrow> open_slots h' xs = open_slots h xs"
  by (induction xs) (simp_all add: upvalue_addr_def)

lemma open_slots_unique:
  "open_slots h xs = Some sl \<Longrightarrow> sorted_wrt (>) sl \<Longrightarrow> x \<in> set xs \<Longrightarrow> y \<in> set xs \<Longrightarrow>
   upvalue_addr h x = upvalue_addr h y \<Longrightarrow> x = y"
proof (induction xs arbitrary: sl)
  case Nil
  then show ?case by simp
next
  case (Cons z xs)
  from Cons.prems(1) [unfolded open_slots_Cons_Some]
  obtain a rest where z: "upvalue_addr h z = Some (StackSlot a)"
    "open_slots h xs = Some rest" "sl = a # rest"
    by blast
  have less: "\<forall>b \<in> set rest. b < a" and sorted: "sorted_wrt (>) rest"
    using Cons.prems(2) z(3) by auto
  have other: "w \<noteq> z" if "w \<in> set xs" for w
  proof
    assume "w = z"
    with open_slots_mem [OF z(2) that] z(1) less show False by auto
  qed
  have diff: "upvalue_addr h w \<noteq> upvalue_addr h z" if "w \<in> set xs" for w
    using open_slots_mem [OF z(2) that] z(1) less by auto
  show ?case
  proof (cases "x = z")
    case True
    show ?thesis
    proof (cases "y = z")
      case True
      with \<open>x = z\<close> show ?thesis by simp
    next
      case False
      then have "y \<in> set xs" using Cons.prems(4) by simp
      from diff [OF this] Cons.prems(5) True show ?thesis by simp
    qed
  next
    case False
    then have x: "x \<in> set xs" using Cons.prems(3) by simp
    show ?thesis
    proof (cases "y = z")
      case True
      from diff [OF x] Cons.prems(5) True show ?thesis by simp
    next
      case False
      then have "y \<in> set xs" using Cons.prems(4) by simp
      from Cons.IH [OF z(2) sorted x this Cons.prems(5)] show ?thesis .
    qed
  qed
qed

lemma upvalues_inv_D:
  "upvalues_inv vm \<Longrightarrow>
   \<exists>slots. open_slots (heap vm) (upvalues vm) = Some slots \<and> sorted_wrt (>) slots \<and>
      list_all (\<lambda>a. a < length (stack vm)) slots"
  by (auto simp: upvalues_inv_def split: option.splits)

lemma upvalues_inv_I:
  "open_slots (heap vm) (upvalues vm) = Some slots \<Longrightarrow> sorted_wrt (>) slots \<Longrightarrow>
   list_all (\<lambda>a. a < length (stack vm)) slots \<Longrightarrow> upvalues_inv vm"
  by (simp add: upvalues_inv_def)

lemma capture_upvalue_inv:
  assumes inv: "upvalues_inv vm" and bound: "addr < length (stack vm)"
  shows "\<exists>u vm'. captureUpvalue vm addr = Some (u, vm') \<and> upvalues_inv vm' \<and>
      u \<in> set (upvalues vm') \<and> upvalue_addr (heap vm') u = Some (StackSlot addr) \<and>
      stack vm' = stack vm \<and> sp vm' = sp vm \<and>
      ((\<exists>x \<in> set (upvalues vm). upvalue_addr (heap vm) x = Some (StackSlot addr)) \<longrightarrow>
         vm' = vm) \<and>
      ((\<forall>x \<in> set (upvalues vm). upvalue_addr (heap vm) x \<noteq> Some (StackSlot addr)) \<longrightarrow>
         deref (heap vm) u = None \<and>
         (\<exists>before rest. upvalues vm = before @ rest \<and> upvalues vm' = before @ u # rest) \<and>
         (\<forall>r ob. deref (heap vm) r = Some ob \<longrightarrow> deref (heap vm') r = Some ob))"
proof -
  from upvalues_inv_D [OF inv] obtain slots where
    os: "open_slots (heap vm) (upvalues vm) = Some slots" and sorted: "sorted_wrt (>) slots"
    and bnd: "list_all (\<lambda>a. a < length (stack vm)) slots"
    by blast
  show ?thesis
  proof (cases "addr \<in> set slots")
    case True
    from capture_existing [OF os sorted True] obtain u where
      u: "captureUpvalue vm addr = Some (u, vm)" "u \<in> set (upvalues vm)"
        "upvalue_addr (heap vm) u = Some (StackSlot addr)"
      by blast
    have "(\<forall>x \<in> set (upvalues vm). upvalue_addr (heap vm) x \<noteq> Some (StackSlot addr)) \<longrightarrow>
         deref (heap vm) u = None \<and>
         (\<exists>before rest. upvalues vm = before @ rest \<and> upvalues vm = before @ u # rest) \<and>
         (\<forall>r ob. deref (heap vm) r = Some ob \<longrightarrow> deref (heap vm) r = Some ob)"
      using u(2,3) by blast
    then show ?thesis
      using u inv by (intro exI [of _ u] exI [of _ vm]) simp
  next
    case False
    let ?new = "Obj 0 (OBJ_UPVALUE (StackSlot addr) NULL_VAL)"
    let ?c = "Suc (length (heap vm))"
    from capture_new [OF os sorted False] obtain before rest ap ar where
      n: "captureUpvalue vm addr =
             Some (?c, vm\<lparr>heap := heap vm @ [?new], upvalues := before @ ?c # rest\<rparr>)"
        "upvalues vm = before @ rest" "slots = ap @ ar"
        "\<forall>a \<in> set ap. a > addr" "\<forall>a \<in> set ar. a < addr"
        "open_slots (heap vm @ [?new]) (before @ ?c # rest) = Some (ap @ addr # ar)"
      by blast
    let ?vm' = "vm\<lparr>heap := heap vm @ [?new], upvalues := before @ ?c # rest\<rparr>"
    have s: "sorted_wrt (>) (ap @ addr # ar)"
      using sorted n(3,4,5) by (auto simp: sorted_wrt_append)
    have b: "list_all (\<lambda>a. a < length (stack vm)) (ap @ addr # ar)"
      using bnd bound n(3) by simp
    have inv': "upvalues_inv ?vm'"
      using n(6) s b by (intro upvalues_inv_I [of _ "ap @ addr # ar"]) simp_all
    have no: "\<not> (\<exists>x \<in> set (upvalues vm). upvalue_addr (heap vm) x = Some (StackSlot addr))"
    proof
      assume "\<exists>x \<in> set (upvalues vm). upvalue_addr (heap vm) x = Some (StackSlot addr)"
      then obtain x where "x \<in> set (upvalues vm)"
        "upvalue_addr (heap vm) x = Some (StackSlot addr)"
        by blast
      with open_slots_mem [OF os this(1)] False show False by auto
    qed
    have ua: "upvalue_addr (heap ?vm') ?c = Some (StackSlot addr)"
      by (simp add: upvalue_addr_def deref_allocate_new)
    have keep: "\<forall>r ob. deref (heap vm) r = Some ob \<longrightarrow> deref (heap ?vm') r = Some ob"
      by (simp add: deref_append)
    have split: "\<exists>b r. upvalues vm = b @ r \<and> upvalues ?vm' = b @ ?c # r"
      using n(2) by (intro exI [of _ before] exI [of _ rest]) simp
    show ?thesis
      using n(1) inv' ua no keep split
      by (intro exI [of _ ?c] exI [of _ ?vm']) (simp add: deref_fresh)
  qed
qed

lemma capture_upvalue_shared:
  assumes inv: "upvalues_inv vm" and bound: "addr < length (stack vm)"
    and c1: "captureUpvalue vm addr = Some (u, vm')"
  shows "captureUpvalue vm' addr = Some (u, vm')"
proof -
  from capture_upvalue_inv [OF inv bound] c1 have
    inv': "upvalues_inv vm'" and u: "u \<in> set (upvalues vm')"
      "upvalue_addr (heap vm') u = Some (StackSlot addr)"
    by auto
  from upvalues_inv_D [OF inv'] obtain slots where
    os: "open_slots (heap vm') (upvalues vm') = Some slots" and sorted: "sorted_wrt (>) slots"
    by blast
  from open_slots_mem [OF os u(1)] u(2) have "addr \<in> set slots"
    by auto
  from capture_existing [OF os sorted this] obtain w where
    w: "captureUpvalue vm' addr = Some (w, vm')" "w \<in> set (upvalues vm')"
      "upvalue_addr (heap vm') w = Some (StackSlot addr)"
    by blast
  have "w = u"
    using os sorted w(2) u(1) by (rule open_slots_unique) (simp add: w(3) u(2))
  then show ?thesis
    using w(1) by simp
qed

lemma close_upvalues_inv:
  assumes inv: "upvalues_inv vm"
  shows "\<exists>vm'. closeUpvalues vm last' = Some vm' \<and> upvalues_inv vm' \<and>
      stack vm' = stack vm \<and> sp vm' = sp vm \<and>
      (\<forall>u \<in> set (upvalues vm). \<forall>a. upvalue_addr (heap vm) u = Some (StackSlot a) \<longrightarrow>
         (a \<ge> last' \<longrightarrow> u \<notin> set (upvalues vm') \<and>
            (\<exists>k cl. deref (heap vm) u = Some (Obj k (OBJ_UPVALUE (StackSlot a) cl)) \<and>
               deref (heap vm') u = Some (Obj k (OBJ_UPVALUE OwnCell (stack vm ! a))))) \<and>
         (a < last' \<longrightarrow> u \<in> set (upvalues vm') \<and> deref (heap vm') u = deref (heap vm) u)) \<and>
      (\<forall>r. r \<notin> set (upvalues vm) \<longrightarrow> deref (heap vm') r = deref (heap vm) r) \<and>
      (\<exists>closed. upvalues vm = closed @ upvalues vm')"
proof -
  from upvalues_inv_D [OF inv] obtain slots where
    os: "open_slots (heap vm) (upvalues vm) = Some slots" and sorted: "sorted_wrt (>) slots"
    and bnd: "list_all (\<lambda>a. a < length (stack vm)) slots"
    by blast
  from close_loop_spec [OF os sorted bnd, of last'] obtain h' closed rest cs rs where
    c: "close_loop (stack vm) (heap vm) (upvalues vm) last' = Some (h', rest)"
      "upvalues vm = closed @ rest"
      "open_slots (heap vm) closed = Some cs" "open_slots (heap vm) rest = Some rs"
      "slots = cs @ rs" "\<forall>a \<in> set cs. a \<ge> last'" "\<forall>a \<in> set rs. a < last'"
      "length h' = length (heap vm)"
      "\<forall>u \<in> set closed. \<exists>k cl a.
          deref (heap vm) u = Some (Obj k (OBJ_UPVALUE (StackSlot a) cl)) \<and>
          deref h' u = Some (Obj k (OBJ_UPVALUE OwnCell (stack vm ! a)))"
      "\<forall>r. r \<notin> set closed \<longrightarrow> deref h' r = deref (heap vm) r"
    by blast
  let ?vm' = "vm\<lparr>heap := h', upvalues := rest\<rparr>"
  have cu: "closeUpvalues vm last' = Some ?vm'"
    using c(1) by (simp add: closeUpvalues_def)
  have in_closed: "a \<ge> last'" if "u \<in> set closed" "upvalue_addr (heap vm) u = Some (StackSlot a)"
    for u a
    using open_slots_mem [OF c(3) that(1)] that(2) c(6) by auto
  have in_rest: "a < last'" if "u \<in> set rest" "upvalue_addr (heap vm) u = Some (StackSlot a)"
    for u a
    using open_slots_mem [OF c(4) that(1)] that(2) c(7) by auto
  have slot_of: "\<exists>a. upvalue_addr (heap vm) u = Some (StackSlot a)" if "u \<in> set (upvalues vm)"
    for u
    using open_slots_mem [OF os that] by blast
  have disj: "u \<notin> set closed" if "u \<in> set rest" for u
  proof
    assume uc: "u \<in> set closed"
    from slot_of [of u] that c(2) obtain a where a: "upvalue_addr (heap vm) u = Some (StackSlot a)"
      by auto
    from in_closed [OF uc a] in_rest [OF that a] show False by simp
  qed
  have "open_slots h' rest = open_slots (heap vm) rest"
    using c(10) disj by (intro open_slots_cong) simp
  then have os': "open_slots (heap ?vm') (upvalues ?vm') = Some rs"
    using c(4) by simp
  have "sorted_wrt (>) rs" "list_all (\<lambda>a. a < length (stack vm)) rs"
    using sorted bnd c(5) by (simp_all add: sorted_wrt_append)
  then have inv': "upvalues_inv ?vm'"
    using os' by (intro upvalues_inv_I [of _ rs]) simp_all
  have main: "(a \<ge> last' \<longrightarrow> u \<notin> set (upvalues ?vm') \<and>
            (\<exists>k cl. deref (heap vm) u = Some (Obj k (OBJ_UPVALUE (StackSlot a) cl)) \<and>
               deref (heap ?vm') u = Some (Obj k (OBJ_UPVALUE OwnCell (stack vm ! a))))) \<and>
         (a < last' \<longrightarrow> u \<in> set (upvalues ?vm') \<and> deref (heap ?vm') u = deref (heap vm) u)"
    if u: "u \<in> set (upvalues vm)" and a: "upvalue_addr (heap vm) u = Some (StackSlot a)" for u a
  proof (cases "u \<in> set closed")
    case True
    from c(9) True obtain k cl b where
      d: "deref (heap vm) u = Some (Obj k (OBJ_UPVALUE (StackSlot b) cl))"
        "deref h' u = Some (Obj k (OBJ_UPVALUE OwnCell (stack vm ! b)))"
      by blast
    have "b = a"
      using d(1) a by (simp add: upvalue_addr_def)
    moreover have "u \<notin> set rest"
      using disj True by blast
    moreover have "a \<ge> last'"
      using in_closed [OF True a] .
    ultimately show ?thesis
      using d by simp
  next
    case False
    then have r: "u \<in> set rest"
      using u c(2) by simp
    have "a < last'"
      using in_rest [OF r a] .
    moreover have "deref h' u = deref (heap vm) u"
      using c(10) False by simp
    ultimately show ?thesis
      using r by simp
  qed
  have other: "\<forall>r. r \<notin> set (upvalues vm) \<longrightarrow> deref (heap ?vm') r = deref (heap vm) r"
    using c(10) c(2) by simp
  have pre: "\<exists>cl. upvalues vm = cl @ upvalues ?vm'"
    using c(2) by (intro exI [of _ closed]) simp
  show ?thesis
    using cu inv' main other pre by (intro exI [of _ ?vm']) simp
qed

text \<open>
  C7. In a state whose open list satisfies the invariant (strictly descending slots,
  all open), \<open>captureUpvalue\<close> and \<open>closeUpvalues\<close> return and the invariant holds
  again afterwards. \<open>captureUpvalue\<close> on a slot that has an upvalue in the list returns
  that upvalue and changes nothing; otherwise it returns a new upvalue, inserted into
  the list, and every object that existed stays as it was; either way capturing the
  same slot again returns the same upvalue, so two closures share one cell.
  \<open>closeUpvalues last\<close> closes every upvalue of the list whose slot is at or above
  \<open>last\<close>: it is unlinked, keeps the value its slot holds, and points at its own cell;
  every upvalue below \<open>last\<close> stays in the list unchanged, and so does every other
  object; the stack is not touched.
\<close>

theorem open_upvalue_list_invariant:
  assumes "upvalues_inv vm"
  shows
    "(addr < length (stack vm) \<longrightarrow>
       (\<exists>u vm'. captureUpvalue vm addr = Some (u, vm') \<and> upvalues_inv vm' \<and>
          u \<in> set (upvalues vm') \<and> upvalue_addr (heap vm') u = Some (StackSlot addr) \<and>
          stack vm' = stack vm \<and> sp vm' = sp vm \<and>
          captureUpvalue vm' addr = Some (u, vm') \<and>
          ((\<exists>x \<in> set (upvalues vm). upvalue_addr (heap vm) x = Some (StackSlot addr)) \<longrightarrow>
             vm' = vm) \<and>
          ((\<forall>x \<in> set (upvalues vm). upvalue_addr (heap vm) x \<noteq> Some (StackSlot addr)) \<longrightarrow>
             deref (heap vm) u = None \<and>
             (\<exists>before rest. upvalues vm = before @ rest \<and> upvalues vm' = before @ u # rest) \<and>
             (\<forall>r ob. deref (heap vm) r = Some ob \<longrightarrow> deref (heap vm') r = Some ob)))) \<and>
     (\<exists>vm'. closeUpvalues vm last' = Some vm' \<and> upvalues_inv vm' \<and>
        stack vm' = stack vm \<and> sp vm' = sp vm \<and>
        (\<forall>u \<in> set (upvalues vm). \<forall>a. upvalue_addr (heap vm) u = Some (StackSlot a) \<longrightarrow>
           (a \<ge> last' \<longrightarrow> u \<notin> set (upvalues vm') \<and>
              (\<exists>k cl. deref (heap vm) u = Some (Obj k (OBJ_UPVALUE (StackSlot a) cl)) \<and>
                 deref (heap vm') u = Some (Obj k (OBJ_UPVALUE OwnCell (stack vm ! a))))) \<and>
           (a < last' \<longrightarrow> u \<in> set (upvalues vm') \<and> deref (heap vm') u = deref (heap vm) u)) \<and>
        (\<forall>r. r \<notin> set (upvalues vm) \<longrightarrow> deref (heap vm') r = deref (heap vm) r) \<and>
        (\<exists>closed. upvalues vm = closed @ upvalues vm'))"
proof (intro conjI impI)
  assume bound: "addr < length (stack vm)"
  from capture_upvalue_inv [OF assms bound] obtain u vm' where
    c: "captureUpvalue vm addr = Some (u, vm') \<and> upvalues_inv vm' \<and>
      u \<in> set (upvalues vm') \<and> upvalue_addr (heap vm') u = Some (StackSlot addr) \<and>
      stack vm' = stack vm \<and> sp vm' = sp vm \<and>
      ((\<exists>x \<in> set (upvalues vm). upvalue_addr (heap vm) x = Some (StackSlot addr)) \<longrightarrow>
         vm' = vm) \<and>
      ((\<forall>x \<in> set (upvalues vm). upvalue_addr (heap vm) x \<noteq> Some (StackSlot addr)) \<longrightarrow>
         deref (heap vm) u = None \<and>
         (\<exists>before rest. upvalues vm = before @ rest \<and> upvalues vm' = before @ u # rest) \<and>
         (\<forall>r ob. deref (heap vm) r = Some ob \<longrightarrow> deref (heap vm') r = Some ob))"
    by blast
  then have "captureUpvalue vm addr = Some (u, vm')"
    by simp
  from capture_upvalue_shared [OF assms bound this]
  have "captureUpvalue vm' addr = Some (u, vm')" .
  with c show "\<exists>u vm'. captureUpvalue vm addr = Some (u, vm') \<and> upvalues_inv vm' \<and>
          u \<in> set (upvalues vm') \<and> upvalue_addr (heap vm') u = Some (StackSlot addr) \<and>
          stack vm' = stack vm \<and> sp vm' = sp vm \<and>
          captureUpvalue vm' addr = Some (u, vm') \<and>
          ((\<exists>x \<in> set (upvalues vm). upvalue_addr (heap vm) x = Some (StackSlot addr)) \<longrightarrow>
             vm' = vm) \<and>
          ((\<forall>x \<in> set (upvalues vm). upvalue_addr (heap vm) x \<noteq> Some (StackSlot addr)) \<longrightarrow>
             deref (heap vm) u = None \<and>
             (\<exists>before rest. upvalues vm = before @ rest \<and> upvalues vm' = before @ u # rest) \<and>
             (\<forall>r ob. deref (heap vm) r = Some ob \<longrightarrow> deref (heap vm') r = Some ob))"
    by (intro exI [of _ u] exI [of _ vm']) simp
next
  show "\<exists>vm'. closeUpvalues vm last' = Some vm' \<and> upvalues_inv vm' \<and>
        stack vm' = stack vm \<and> sp vm' = sp vm \<and>
        (\<forall>u \<in> set (upvalues vm). \<forall>a. upvalue_addr (heap vm) u = Some (StackSlot a) \<longrightarrow>
           (a \<ge> last' \<longrightarrow> u \<notin> set (upvalues vm') \<and>
              (\<exists>k cl. deref (heap vm) u = Some (Obj k (OBJ_UPVALUE (StackSlot a) cl)) \<and>
                 deref (heap vm') u = Some (Obj k (OBJ_UPVALUE OwnCell (stack vm ! a))))) \<and>
           (a < last' \<longrightarrow> u \<in> set (upvalues vm') \<and> deref (heap vm') u = deref (heap vm) u)) \<and>
        (\<forall>r. r \<notin> set (upvalues vm) \<longrightarrow> deref (heap vm') r = deref (heap vm) r) \<and>
        (\<exists>closed. upvalues vm = closed @ upvalues vm')"
    using assms by (rule close_upvalues_inv)
qed

theorem open_upvalue_list_invariant_witness:
  "upvalues_inv vm_upvalues \<and>
   captureUpvalue vm_upvalues 3 = Some (1, vm_upvalues) \<and>
   (\<exists>u vm'. captureUpvalue vm_upvalues 2 = Some (u, vm') \<and> upvalues_inv vm' \<and>
      upvalues vm' = [1, u, 2] \<and> captureUpvalue vm' 2 = Some (u, vm')) \<and>
   (\<exists>vm'. closeUpvalues vm_upvalues 2 = Some vm' \<and> upvalues_inv vm' \<and> upvalues vm' = [2] \<and>
      deref (heap vm') 1 = Some (Obj 0 (OBJ_UPVALUE OwnCell (NUM_VAL 40))) \<and>
      deref (heap vm') 2 = Some (Obj 0 (OBJ_UPVALUE (StackSlot 1) NULL_VAL)))"
proof -
  have inv: "upvalues_inv vm_upvalues"
    by (simp add: upvalues_inv_def vm_upvalues_def upvalue_addr_def deref_def)
  have b: "2 < length (stack vm_upvalues)"
    by (simp add: vm_upvalues_def)
  have c3: "captureUpvalue vm_upvalues 3 = Some (1, vm_upvalues)"
    by (simp add: captureUpvalue_def vm_upvalues_def upvalue_addr_def deref_def)
  have c2: "captureUpvalue vm_upvalues 2 =
      Some (3, vm_upvalues\<lparr>heap := heap vm_upvalues @ [Obj 0 (OBJ_UPVALUE (StackSlot 2) NULL_VAL)],
                          upvalues := [1, 3, 2]\<rparr>)"
    by (simp add: captureUpvalue_def vm_upvalues_def upvalue_addr_def deref_def
          createUpvalue_def newUpvalue_def allocate_def)
  have cl: "closeUpvalues vm_upvalues 2 =
      Some (vm_upvalues\<lparr>heap := [Obj 0 (OBJ_UPVALUE OwnCell (NUM_VAL 40)),
                                  Obj 0 (OBJ_UPVALUE (StackSlot 1) NULL_VAL)],
                          upvalues := [2]\<rparr>)"
    by (simp add: closeUpvalues_def vm_upvalues_def deref_def heap_store_def)
  note t = open_upvalue_list_invariant [OF inv, of 2 2]
  from t b obtain u vm' where
    "captureUpvalue vm_upvalues 2 = Some (u, vm')" "upvalues_inv vm'"
    "captureUpvalue vm' 2 = Some (u, vm')"
    by blast
  then have 1: "\<exists>u vm'. captureUpvalue vm_upvalues 2 = Some (u, vm') \<and> upvalues_inv vm' \<and>
      upvalues vm' = [1, u, 2] \<and> captureUpvalue vm' 2 = Some (u, vm')"
    using c2 by auto
  from t obtain vm2 where "closeUpvalues vm_upvalues 2 = Some vm2" "upvalues_inv vm2"
    by blast
  then have 2: "\<exists>vm'. closeUpvalues vm_upvalues 2 = Some vm' \<and> upvalues_inv vm' \<and>
      upvalues vm' = [2] \<and>
      deref (heap vm') 1 = Some (Obj 0 (OBJ_UPVALUE OwnCell (NUM_VAL 40))) \<and>
      deref (heap vm') 2 = Some (Obj 0 (OBJ_UPVALUE (StackSlot 1) NULL_VAL))"
    using cl by (auto simp: deref_def)
  from inv c3 1 2 show ?thesis
    by blast
qed

subsection \<open>Return through an ensure block\<close>

text \<open>
  What \<open>OP_END_TRY\<close> does with the two values on top of the stack. A null under the
  cause falls through, whatever the cause is. Otherwise, with \<open>CAUSE_EXCEPT\<close> the cause
  is popped and unwinding goes on with the exception on top of the stack; with
  \<open>CAUSE_RETURN\<close> the cause is popped and control enters \<open>op_return\<close>, which pops that
  value as the one to return.
\<close>

lemma OP_END_TRY_cases:
  "(peek2 vm = NULL_VAL \<longrightarrow> OP_END_TRY vm depth = Dispatch vm) \<and>
   (peek2 vm \<noteq> NULL_VAL \<and> peek vm = NUM_VAL (of_int CAUSE_EXCEPT) \<longrightarrow>
      OP_END_TRY vm depth = UNWIND_STACK (vm\<lparr>sp := sp vm - 1\<rparr>) depth) \<and>
   (peek2 vm \<noteq> NULL_VAL \<and> peek vm = NUM_VAL (of_int CAUSE_RETURN) \<longrightarrow>
      OP_END_TRY vm depth = op_return (vm\<lparr>sp := sp vm - 1\<rparr>) depth) \<and>
   (2 \<le> sp vm \<longrightarrow> peek (vm\<lparr>sp := sp vm - 1\<rparr>) = peek2 vm)"
proof -
  have "sp vm - Suc 0 - Suc 0 = sp vm - 2"
    by simp
  then show ?thesis
    by (simp add: OP_END_TRY_def IS_NULL_def pop_def peek_def peek2_def CAUSE_EXCEPT_def
          CAUSE_RETURN_def double_to_int_def)
qed

text \<open>
  C1 at the failing input. A \<open>return\<close> of null inside \<open>try ... ensure\<close>: \<open>OP_RETURN\<close>
  finds the \<open>ensure\<close> handler and resumes there with null and \<open>CAUSE_RETURN\<close> on the
  stack; at the \<open>OP_END_TRY\<close> that follows the block the test \<open>IS_NULL(peek2(vm))\<close>
  takes the pending return for a normal completion and the loop goes on in the same
  frame: the function does not return. With a value that is not null, here 7, the
  same \<open>OP_END_TRY\<close> does return it.
\<close>

theorem end_try_drops_return_of_null:
  "op_return (vm_return NULL_VAL) 0 = Dispatch (vm_end_try NULL_VAL) \<and>
   peek2 (vm_end_try NULL_VAL) = NULL_VAL \<and>
   peek (vm_end_try NULL_VAL) = NUM_VAL (of_int CAUSE_RETURN) \<and>
   OP_END_TRY (vm_end_try NULL_VAL) 0 = Dispatch (vm_end_try NULL_VAL) \<and>
   op_return (vm_return (NUM_VAL 7)) 0 = Dispatch (vm_end_try (NUM_VAL 7)) \<and>
   OP_END_TRY (vm_end_try (NUM_VAL 7)) 0 =
     EvalReturn True ((vm_end_try (NUM_VAL 7))
       \<lparr>stack := [NUM_VAL 7, NUM_VAL 7, NUM_VAL 1, NULL_VAL], sp := 1, frames := []\<rparr>)"
  by (simp add: op_return_def OP_END_TRY_def vm_return_def vm_end_try_def RESTORE_HANDLER_def
        closeUpvalues_def pop_def push_def peek_def peek2_def IS_NULL_def
        CAUSE_RETURN_def CAUSE_EXCEPT_def double_to_int_def)

subsection \<open>Jumps and calls\<close>








subsection \<open>The import path of the command line\<close>

lemma split_loop_inv:
  assumes "last' \<le> i" and "i \<le> length jp"
    and "CHR '':'' \<notin> set (take (i - last') (drop last' jp))"
  shows "\<exists>segs last2. split_loop jp i last' [] paths = (last2, [], paths @ segs) \<and>
      last' \<le> last2 \<and> last2 \<le> length jp \<and>
      concat (map (\<lambda>s. s @ '':'') segs) = take (last2 - last') (drop last' jp) \<and>
      (\<forall>s \<in> set segs. CHR '':'' \<notin> set s) \<and>
      CHR '':'' \<notin> set (drop last2 jp)"
  using assms
proof (induction "length jp - i" arbitrary: i last' paths)
  case 0
  then have "\<not> i < length jp"
    by simp
  then have "split_loop jp i last' [] paths = (last', [], paths)"
    by (subst split_loop.simps) simp
  moreover have "take (i - last') (drop last' jp) = drop last' jp"
    using 0 by simp
  ultimately show ?case
    using "0.prems" by (intro exI [of _ "[]"] exI [of _ last']) simp
next
  case (Suc n)
  then have True: "i < length jp" and n: "n = length jp - (i + 1)"
    by simp_all
  show ?case
  proof (cases "jp ! i = CHR '':''")
    case colon: True
    let ?seg = "take (i - last') (drop last' jp)"
    have step: "split_loop jp i last' [] paths = split_loop jp (i + 1) (i + 1) [] (paths @ [?seg])"
      using True colon
      by (subst split_loop.simps)
         (simp add: jsrBufferAppend_def jsrBufferClear_def jsrAddImportPath_def)
    have "\<exists>segs last2. split_loop jp (i + 1) (i + 1) [] (paths @ [?seg])
          = (last2, [], (paths @ [?seg]) @ segs) \<and>
        i + 1 \<le> last2 \<and> last2 \<le> length jp \<and>
        concat (map (\<lambda>s. s @ '':'') segs) = take (last2 - (i + 1)) (drop (i + 1) jp) \<and>
        (\<forall>s \<in> set segs. CHR '':'' \<notin> set s) \<and>
        CHR '':'' \<notin> set (drop last2 jp)"
      using True n by (intro Suc.hyps(1)) simp_all
    then obtain segs last2 where
      ih: "split_loop jp (i + 1) (i + 1) [] (paths @ [?seg]) = (last2, [], (paths @ [?seg]) @ segs)"
        "i + 1 \<le> last2" "last2 \<le> length jp"
        "concat (map (\<lambda>s. s @ '':'') segs) = take (last2 - (i + 1)) (drop (i + 1) jp)"
        "\<forall>s \<in> set segs. CHR '':'' \<notin> set s" "CHR '':'' \<notin> set (drop last2 jp)"
      by blast
    have a: "take (last2 - last') (drop last' jp)
        = take (i - last') (drop last' jp) @ take (last2 - i) (drop i jp)"
    proof -
      have e: "last2 - last' = (i - last') + (last2 - i)"
        using Suc.prems(1) ih(2) by simp
      have "drop (i - last') (drop last' jp) = drop i jp"
        using Suc.prems(1) by simp
      then show ?thesis
        unfolding e take_add by simp
    qed
    have b: "take (last2 - i) (drop i jp) = CHR '':'' # take (last2 - (i + 1)) (drop (i + 1) jp)"
    proof -
      have "drop i jp = jp ! i # drop (Suc i) jp"
        using True by (simp add: Cons_nth_drop_Suc)
      moreover have "last2 - i = Suc (last2 - (i + 1))"
        using ih(2) by simp
      ultimately show ?thesis
        using colon by simp
    qed
    have "concat (map (\<lambda>s. s @ '':'') (?seg # segs)) = take (last2 - last') (drop last' jp)"
      using ih(4) a b by simp
    then show ?thesis
      using step ih Suc.prems
      by (intro exI [of _ "?seg # segs"] exI [of _ last2]) simp
  next
    case nocolon: False
    have step: "split_loop jp i last' [] paths = split_loop jp (i + 1) last' [] paths"
      using True nocolon by (subst split_loop.simps) simp
    have "take (i + 1 - last') (drop last' jp) = take (i - last') (drop last' jp) @ [jp ! i]"
    proof -
      have "i + 1 - last' = Suc (i - last')"
        using Suc.prems(1) by simp
      moreover have "i - last' < length (drop last' jp)"
        using True Suc.prems(1) by simp
      moreover have "drop last' jp ! (i - last') = jp ! i"
        using True Suc.prems(1) by simp
      ultimately show ?thesis
        by (simp add: take_Suc_conv_app_nth)
    qed
    then have "CHR '':'' \<notin> set (take (i + 1 - last') (drop last' jp))"
      using Suc.prems(3) nocolon by simp
    then have "\<exists>segs last2. split_loop jp (i + 1) last' [] paths = (last2, [], paths @ segs) \<and>
        last' \<le> last2 \<and> last2 \<le> length jp \<and>
        concat (map (\<lambda>s. s @ '':'') segs) = take (last2 - last') (drop last' jp) \<and>
        (\<forall>s \<in> set segs. CHR '':'' \<notin> set s) \<and>
        CHR '':'' \<notin> set (drop last2 jp)"
      using True n Suc.prems by (intro Suc.hyps(1)) simp_all
    then show ?thesis
      using step by simp
  qed
qed


text \<open>
  C9, as the code has it. \<open>initImportPaths\<close> adds the base path first. With \<open>-E\<close>, or
  when \<open>JSTARPATH\<close> is not set, nothing else is added. Otherwise the colon-separated
  entries of \<open>JSTARPATH\<close> are added after the base path, in their order: the entries
  contain no colon and, joined by colons, give back the variable. So the entries come
  after the base path in the import path, not before it.
\<close>

theorem import_paths_base_first:
  "initImportPaths True env importpaths path = importpaths @ [path] \<and>
   initImportPaths ignoreEnv None importpaths path = importpaths @ [path] \<and>
   (\<exists>segs seg.
      initImportPaths False (Some jstarPath) importpaths path = importpaths @ path # segs @ [seg] \<and>
      concat (map (\<lambda>s. s @ '':'') segs) @ seg = jstarPath \<and>
      (\<forall>s \<in> set (segs @ [seg]). CHR '':'' \<notin> set s))"
proof (intro conjI)
  show "initImportPaths True env importpaths path = importpaths @ [path]"
    by (simp add: initImportPaths_def jsrAddImportPath_def Let_def)
  show "initImportPaths ignoreEnv None importpaths path = importpaths @ [path]"
    by (simp add: initImportPaths_def jsrAddImportPath_def Let_def)
  have "\<exists>segs last2. split_loop jstarPath 0 0 [] (importpaths @ [path])
        = (last2, [], (importpaths @ [path]) @ segs) \<and>
      0 \<le> last2 \<and> last2 \<le> length jstarPath \<and>
      concat (map (\<lambda>s. s @ '':'') segs) = take (last2 - 0) (drop 0 jstarPath) \<and>
      (\<forall>s \<in> set segs. CHR '':'' \<notin> set s) \<and>
      CHR '':'' \<notin> set (drop last2 jstarPath)"
    by (rule split_loop_inv) simp_all
  then obtain segs last2 where
    l: "split_loop jstarPath 0 0 [] (importpaths @ [path]) = (last2, [], (importpaths @ [path]) @ segs)"
      "last2 \<le> length jstarPath"
      "concat (map (\<lambda>s. s @ '':'') segs) = take last2 jstarPath"
      "\<forall>s \<in> set segs. CHR '':'' \<notin> set s" "CHR '':'' \<notin> set (drop last2 jstarPath)"
    by auto
  have "initImportPaths False (Some jstarPath) importpaths path
      = importpaths @ path # segs @ [drop last2 jstarPath]"
    using l(1,2)
    by (simp add: initImportPaths_def jsrAddImportPath_def jsrBufferAppend_def Let_def)
  moreover have "concat (map (\<lambda>s. s @ '':'') segs) @ drop last2 jstarPath = jstarPath"
    using l(3) by simp
  ultimately show "\<exists>segs seg.
      initImportPaths False (Some jstarPath) importpaths path = importpaths @ path # segs @ [seg] \<and>
      concat (map (\<lambda>s. s @ '':'') segs) @ seg = jstarPath \<and>
      (\<forall>s \<in> set (segs @ [seg]). CHR '':'' \<notin> set s)"
    using l(4,5) by (intro exI [of _ segs] exI [of _ "drop last2 jstarPath"]) simp
qed

lemma initImportPaths_example:
  "initImportPaths False (Some ''a:b'') [] ''./'' = [''./'', ''a'', ''b'']"
  by (simp add: initImportPaths_def split_loop.simps jsrAddImportPath_def jsrBufferAppend_def
        jsrBufferClear_def Let_def)

theorem import_paths_base_first_witness:
  "initImportPaths True (Some ''a:b'') [] ''./'' = [''./''] \<and>
   (\<exists>segs seg. initImportPaths False (Some ''a:b'') [] ''./'' = ''./'' # segs @ [seg] \<and>
      concat (map (\<lambda>s. s @ '':'') segs) @ seg = ''a:b'' \<and> segs = [''a''] \<and> seg = ''b'')"
proof -
  note t = import_paths_base_first [of "Some ''a:b''" "[]" "''./''" False "''a:b''"]
  from t have 1: "initImportPaths True (Some ''a:b'') [] ''./'' = [''./'']"
    by simp
  from t obtain segs seg where
    s: "initImportPaths False (Some ''a:b'') [] ''./'' = ''./'' # segs @ [seg]"
      "concat (map (\<lambda>s. s @ '':'') segs) @ seg = ''a:b''"
    by auto
  from s(1) have "segs @ [seg] = [''a''] @ [''b'']"
    by (simp add: initImportPaths_example)
  then have "segs = [''a''] \<and> seg = ''b''"
    by (simp only: append1_eq_conv)
  with 1 s show ?thesis
    by blast
qed

text \<open>
  C9, as the spec states it, fails: with the base path \<open>./\<close> and \<open>JSTARPATH=a:b\<close> the
  import path is \<open>./\<close>, \<open>a\<close>, \<open>b\<close>; the entries are not put before the base path.
\<close>

theorem jstarpath_prepended_counterexample:
  "initImportPaths False (Some ''a:b'') [] ''./'' = [''./'', ''a'', ''b''] \<and>
   initImportPaths False (Some ''a:b'') [] ''./'' \<noteq> [''a'', ''b'', ''./'']"
  by (simp add: initImportPaths_def split_loop.simps jsrAddImportPath_def jsrBufferAppend_def
        jsrBufferClear_def Let_def)

end
